theory Spec2Isabelle
  imports Main "HOL-Library.Word"
begin

unbundle bit_operations_syntax

section \<open>Strings and characters\<close>

text \<open>
  A \<open>QString\<close> is modelled as a \<^typ>\<open>string\<close>: a list of 8-bit characters, read as
  the code points U+0000 .. U+00FF. The character predicates of \<open>QChar\<close> and the
  \<open>QString\<close> operations the reader calls are written out on that range.
\<close>

text \<open>\<open>QChar::isSpace\<close>: U+0009 .. U+000D, U+0020, U+0085 and U+00A0.\<close>

definition isSpace :: "char \<Rightarrow> bool" where
  "isSpace c = (c \<in> set [CHR 0x09, CHR 0x0A, CHR 0x0B, CHR 0x0C, CHR 0x0D, CHR 0x20, CHR 0x85, CHR 0xA0])"

text \<open>
  \<open>QChar::isLetterOrNumber\<close>: the categories Letter and Number. Below U+0100 these
  are the ASCII digits and letters, the ordinal indicators, the micro sign, the superscript
  digits, the vulgar fractions and the accented letters (all of U+00C0 .. U+00FF but the
  multiplication and the division sign).
\<close>

definition isLetterOrNumber :: "char \<Rightarrow> bool" where
  "isLetterOrNumber c =
     (let n = (of_char c :: nat) in
        (48 \<le> n \<and> n \<le> 57) \<or> (65 \<le> n \<and> n \<le> 90) \<or> (97 \<le> n \<and> n \<le> 122) \<or>
        n = 170 \<or> n = 178 \<or> n = 179 \<or> n = 181 \<or> n = 185 \<or> n = 186 \<or>
        (188 \<le> n \<and> n \<le> 190) \<or> (192 \<le> n \<and> n \<le> 214) \<or>
        (216 \<le> n \<and> n \<le> 246) \<or> (248 \<le> n \<and> n \<le> 255))"

text \<open>
  \<open>QChar::toLower\<close> on the same range: the ASCII capitals and the accented capitals
  U+00C0 .. U+00DE (but the multiplication sign U+00D7) move up by 32.
\<close>

definition toLowerChar :: "char \<Rightarrow> char" where
  "toLowerChar c =
     (let n = (of_char c :: nat) in
        if (65 \<le> n \<and> n \<le> 90) \<or> (192 \<le> n \<and> n \<le> 222 \<and> n \<noteq> 215)
        then char_of (n + 32) else c)"

definition toLower :: "string \<Rightarrow> string" where
  "toLower s = map toLowerChar s"

text \<open>
  \<open>QString::compare(.., Qt::CaseInsensitive) == 0\<close>: equality after case folding,
  which on this range is the lower-casing above for every character that folds to an
  ASCII letter.
\<close>

definition equalsIgnoreCase :: "string \<Rightarrow> string \<Rightarrow> bool" where
  "equalsIgnoreCase s t = (toLower s = toLower t)"

text \<open>
  \<open>QString::simplified\<close>: whitespace removed from both ends, every internal run of
  whitespace replaced by one space. \<open>collapse pending\<close> copies the characters and
  emits the single space only when another word follows.
\<close>

primrec collapse :: "bool \<Rightarrow> string \<Rightarrow> string" where
  "collapse pending [] = []"
| "collapse pending (c # cs) =
     (if isSpace c then collapse True cs
      else if pending then CHR '' '' # c # collapse False cs
      else c # collapse False cs)"

definition simplified :: "string \<Rightarrow> string" where
  "simplified s = collapse False (dropWhile isSpace s)"

definition startsWith :: "string \<Rightarrow> string \<Rightarrow> bool" where
  "startsWith s p = (take (length p) s = p)"

section \<open>The tokenizer: comment stripping\<close>

text \<open>
  The first loop of \<open>KeyboardTranslatorReader::tokenize\<close>:
  \<^verbatim>\<open>for (int i = text.length() - 1; i >= 0; i--)\<close>.
  \<open>commentScan text n inQuotes commentPos\<close> is the loop with \<open>n\<close> indices left to
  visit: it visits \<open>n - 1\<close> next, so the index read is always inside the string.
\<close>

fun commentScan :: "string \<Rightarrow> nat \<Rightarrow> bool \<Rightarrow> int \<Rightarrow> int" where
  "commentScan text 0 inQuotes commentPos = commentPos"
| "commentScan text (Suc i) inQuotes commentPos =
     (let ch = text ! i in
        if ch = CHR 0x22 then commentScan text i (\<not> inQuotes) commentPos
        else if ch = CHR ''#'' \<and> \<not> inQuotes then commentScan text i inQuotes (int i)
        else commentScan text i inQuotes commentPos)"

text \<open>
  \<^verbatim>\<open>if (commentPos != -1) text.remove(commentPos, text.length());\<close>
  removes everything from \<open>commentPos\<close> to the end.
\<close>

definition stripComments :: "string \<Rightarrow> string" where
  "stripComments text =
     (let commentPos = commentScan text (length text) False (- 1) in
        if commentPos \<noteq> - 1 then take (nat commentPos) text else text)"

section \<open>Regular expressions\<close>

text \<open>
  \<open>QRegularExpression\<close> is a backtracking matcher. The fragment the reader's pattern
  needs: literals, a character class repeated at least \<open>n\<close> times (greedy or lazy),
  sequence, alternation and numbered capture groups. The classes are \<^verbatim>\<open>\s\<close>,
  \<^verbatim>\<open>.\<close> and \<^verbatim>\<open>\w\<close> without the Unicode-properties option: ASCII
  whitespace, every character but the line feed, and ASCII letters, digits and the
  underscore. The subject \<open>tokenize\<close> passes is a simplified text, whose only whitespace
  is the single space between two words.
\<close>

datatype CharClass = Space | AnyChar | Word

fun classMatches :: "CharClass \<Rightarrow> char \<Rightarrow> bool" where
  "classMatches Space c = (c \<in> set [CHR 0x09, CHR 0x0A, CHR 0x0B, CHR 0x0C, CHR 0x0D, CHR 0x20])"
| "classMatches AnyChar c = (c \<noteq> CHR 0x0A)"
| "classMatches Word c =
     (let n = (of_char c :: nat) in
        (48 \<le> n \<and> n \<le> 57) \<or> (65 \<le> n \<and> n \<le> 90) \<or> (97 \<le> n \<and> n \<le> 122) \<or> n = 95)"

datatype Greed = Greedy | Lazy

datatype Regex =
    Lit string
  | Rep Greed nat CharClass
  | Seq Regex Regex
  | Alt Regex Regex
  | Group nat Regex

type_synonym Captures = "nat \<Rightarrow> string option"

text \<open>
  \<open>matchAt r s caps\<close> lists every way \<open>r\<close> can match a prefix of \<open>s\<close>, in the order
  in which backtracking tries them: the rest of the subject and the captures so far. A
  greedy repetition tries the longest run first and gives characters back one by one, a
  lazy one starts from the shortest; an alternation tries its left branch first.
\<close>

fun matchAt :: "Regex \<Rightarrow> string \<Rightarrow> Captures \<Rightarrow> (string \<times> Captures) list" where
  "matchAt (Lit w) s caps =
     (if take (length w) s = w then [(drop (length w) s, caps)] else [])"
| "matchAt (Rep g n cls) s caps =
     (let k = length (takeWhile (classMatches cls) s);
          counts = (if g = Greedy then rev [n ..< Suc k] else [n ..< Suc k])
      in map (\<lambda>j. (drop j s, caps)) counts)"
| "matchAt (Seq a b) s caps =
     concat (map (\<lambda>(s', caps'). matchAt b s' caps') (matchAt a s caps))"
| "matchAt (Alt a b) s caps = matchAt a s caps @ matchAt b s caps"
| "matchAt (Group i a) s caps =
     map (\<lambda>(s', caps'). (s', caps'(i := Some (take (length s - length s') s))))
       (matchAt a s caps)"

text \<open>
  \<open>QRegularExpression::match\<close> is not anchored: it tries every start offset from the
  left and returns the first way of matching at the first offset that has one.
\<close>

fun search :: "Regex \<Rightarrow> string \<Rightarrow> Captures option" where
  "search r [] =
     (case matchAt r [] (\<lambda>_. None) of [] \<Rightarrow> None | m # _ \<Rightarrow> Some (snd m))"
| "search r (c # cs) =
     (case matchAt r (c # cs) (\<lambda>_. None) of [] \<Rightarrow> search r cs | m # _ \<Rightarrow> Some (snd m))"

text \<open>\<open>captured(i)\<close>: the text of group \<open>i\<close>, empty when the group took no part.\<close>

definition captured :: "Captures \<Rightarrow> nat \<Rightarrow> string" where
  "captured caps i = (case caps i of None \<Rightarrow> [] | Some s \<Rightarrow> s)"

text \<open>The pattern \<^verbatim>\<open>key\s+(.+?)\s*:\s*(\"(.*)\"|\w+)\<close> of \<open>tokenize\<close>.\<close>

definition keyRegex :: Regex where
  "keyRegex =
     Seq (Lit ''key'')
    (Seq (Rep Greedy 1 Space)
    (Seq (Group 1 (Rep Lazy 1 AnyChar))
    (Seq (Rep Greedy 0 Space)
    (Seq (Lit '':'')
    (Seq (Rep Greedy 0 Space)
         (Group 2 (Alt (Seq (Lit [CHR 0x22]) (Seq (Group 3 (Rep Greedy 0 AnyChar)) (Lit [CHR 0x22])))
                       (Rep Greedy 1 Word))))))))"

section \<open>The tokenizer\<close>

datatype Type = TitleKeyword | TitleText | KeyKeyword | KeySequence | OutputText | Command

record Token =
  tokenType :: Type
  tokenText :: string

text \<open>
  \<open>KeyboardTranslatorReader::tokenize\<close>. The title branch removes the prefix and every
  double quote; the key branch removes every space of the first capture.
\<close>

definition tokenize :: "string \<Rightarrow> Token list" where
  "tokenize line =
     (let text = simplified (stripComments line) in
      if text = [] then []
      else if startsWith text ''keyboard'' then
        (let title = simplified (filter (\<lambda>c. c \<noteq> CHR 0x22) (drop (length ''keyboard'') text)) in
         if title \<noteq> []
         then [\<lparr>tokenType = TitleKeyword, tokenText = []\<rparr>,
               \<lparr>tokenType = TitleText, tokenText = title\<rparr>]
         else [])
      else
        (case search keyRegex text of
           None \<Rightarrow> []
         | Some keyMatch \<Rightarrow>
             (let keyToken = \<lparr>tokenType = KeyKeyword, tokenText = []\<rparr>;
                  sequenceTokenString = captured keyMatch 1;
                  sequenceToken = \<lparr>tokenType = KeySequence,
                                   tokenText = filter (\<lambda>c. c \<noteq> CHR '' '') sequenceTokenString\<rparr>;
                  outText = captured keyMatch 3
              in if outText \<noteq> []
                 then [keyToken, sequenceToken, \<lparr>tokenType = OutputText, tokenText = outText\<rparr>]
                 else [keyToken, sequenceToken,
                       \<lparr>tokenType = Command, tokenText = captured keyMatch 2\<rparr>])))"

section \<open>Key bindings\<close>

text \<open>
  The enumerations the reader names. Of \<open>Qt::KeyboardModifier\<close> and
  \<open>KeyboardTranslator::State\<close> only the enumerators the reader uses are listed; the
  empty flag sets \<open>Qt::NoModifier\<close> and \<open>KeyboardTranslator::NoState\<close> are the
  all-zero word.
\<close>

datatype KeyboardModifier =
  ShiftModifier | ControlModifier | AltModifier | MetaModifier | KeypadModifier

datatype State =
  CursorKeysState | AnsiState | NewLineState | AlternateScreenState | AnyModifierState
  | ApplicationKeypadState

datatype Command =
  NoCommand | EraseCommand | ScrollPageUpCommand | ScrollPageDownCommand
  | ScrollLineUpCommand | ScrollLineDownCommand | ScrollUpToTopCommand
  | ScrollDownToBottomCommand | ScrollPromptUpCommand | ScrollPromptDownCommand

text \<open>
  Modelled from the spec: the class \<open>KeyboardTranslator::Entry\<close> is declared in a
  header that is not among the sources. Its attributes are those of the specification's
  data model (a key code, a value and a mask for the modifiers and for the state flags,
  a command and the output text), and each setter stores its argument.
\<close>

record Entry =
  keyCode :: int
  modifiers :: "32 word"
  modifierMask :: "32 word"
  state :: "32 word"
  stateMask :: "32 word"
  command :: Command
  entryText :: string

text \<open>
  What the reader takes from Qt and from the headers outside the sources, as parameters:
  the bit of every modifier and state flag, the key-name table
  \<open>QKeySequence::fromString\<close> (the key codes of the sequence a name denotes, empty
  when it denotes none), the constant \<open>Qt::Key_unknown\<close> and the default-constructed
  entry.
\<close>

record Platform =
  modifierValue :: "KeyboardModifier \<Rightarrow> 32 word"
  stateValue :: "State \<Rightarrow> 32 word"
  fromString :: "string \<Rightarrow> int list"
  Key_unknown :: int
  defaultEntry :: Entry

subsection \<open>Classifying one item\<close>

text \<open>
  The four \<open>parseAs...\<close> functions return \<open>false\<close> and leave their reference
  argument alone, or return \<open>true\<close> and assign it: \<open>None\<close>, or \<open>Some\<close> of the
  assigned enumerator.
\<close>

definition parseAsCommand :: "string \<Rightarrow> Command option" where
  "parseAsCommand text =
     (if equalsIgnoreCase text ''erase'' then Some EraseCommand
      else if equalsIgnoreCase text ''scrollpageup'' then Some ScrollPageUpCommand
      else if equalsIgnoreCase text ''scrollpagedown'' then Some ScrollPageDownCommand
      else if equalsIgnoreCase text ''scrolllineup'' then Some ScrollLineUpCommand
      else if equalsIgnoreCase text ''scrolllinedown'' then Some ScrollLineDownCommand
      else if equalsIgnoreCase text ''scrolluptotop'' then Some ScrollUpToTopCommand
      else if equalsIgnoreCase text ''scrolldowntobottom'' then Some ScrollDownToBottomCommand
      else if equalsIgnoreCase text ''scrollpromptup'' then Some ScrollPromptUpCommand
      else if equalsIgnoreCase text ''scrollpromptdown'' then Some ScrollPromptDownCommand
      else None)"

definition parseAsModifier :: "string \<Rightarrow> KeyboardModifier option" where
  "parseAsModifier item =
     (if item = ''shift'' then Some ShiftModifier
      else if item = ''ctrl'' \<or> item = ''control'' then Some ControlModifier
      else if item = ''alt'' then Some AltModifier
      else if item = ''meta'' then Some MetaModifier
      else if item = ''keypad'' then Some KeypadModifier
      else None)"

definition parseAsStateFlag :: "string \<Rightarrow> State option" where
  "parseAsStateFlag item =
     (if item = ''appcukeys'' \<or> item = ''appcursorkeys'' then Some CursorKeysState
      else if item = ''ansi'' then Some AnsiState
      else if item = ''newline'' then Some NewLineState
      else if item = ''appscreen'' then Some AlternateScreenState
      else if item = ''anymod'' \<or> item = ''anymodifier'' then Some AnyModifierState
      else if item = ''appkeypad'' then Some ApplicationKeypadState
      else None)"

definition parseAsKeyCode :: "Platform \<Rightarrow> string \<Rightarrow> int option" where
  "parseAsKeyCode P item =
     (case fromString P item of [] \<Rightarrow> None | first # _ \<Rightarrow> Some first)"

subsection \<open>Decoding a key sequence\<close>

text \<open>
  The variables of the loop of \<open>decodeSequence\<close>. \<open>keyCodeRef\<close> is the reference
  argument \<open>keyCode\<close>, which the loop assigns directly; the four flag sets are the
  temporaries copied back after the loop.
\<close>

record DecodeState =
  buffer :: string
  isWanted :: bool
  keyCodeRef :: int
  tempModifiers :: "32 word"
  tempModifierMask :: "32 word"
  tempFlags :: "32 word"
  tempFlagMask :: "32 word"

text \<open>
  The body of \<^verbatim>\<open>if ((endOfItem || isLastLetter) && !buffer.isEmpty())\<close>: the
  buffer is classified as a modifier, else as a state flag, else as a key name, else
  dropped, and cleared.
\<close>

definition classifyItem :: "Platform \<Rightarrow> DecodeState \<Rightarrow> DecodeState" where
  "classifyItem P st =
     (case parseAsModifier (buffer st) of
        Some itemModifier \<Rightarrow>
          st\<lparr>tempModifierMask := tempModifierMask st OR modifierValue P itemModifier,
             tempModifiers := (if isWanted st then tempModifiers st OR modifierValue P itemModifier
                               else tempModifiers st),
             buffer := []\<rparr>
      | None \<Rightarrow>
          (case parseAsStateFlag (buffer st) of
             Some itemFlag \<Rightarrow>
               st\<lparr>tempFlagMask := tempFlagMask st OR stateValue P itemFlag,
                  tempFlags := (if isWanted st then tempFlags st OR stateValue P itemFlag
                                else tempFlags st),
                  buffer := []\<rparr>
           | None \<Rightarrow>
               (case parseAsKeyCode P (buffer st) of
                  Some itemKeyCode \<Rightarrow> st\<lparr>keyCodeRef := itemKeyCode, buffer := []\<rparr>
                | None \<Rightarrow> st\<lparr>buffer := []\<rparr>)))"

text \<open>One iteration of the loop, for the character \<open>ch = text[i]\<close>.\<close>

definition decodeChar :: "Platform \<Rightarrow> char \<Rightarrow> bool \<Rightarrow> bool \<Rightarrow> DecodeState \<Rightarrow> DecodeState" where
  "decodeChar P ch isFirstLetter isLastLetter st =
     (let endOfItem = \<not> isLetterOrNumber ch;
          st1 = (if isLetterOrNumber ch \<or> isFirstLetter
                 then st\<lparr>buffer := buffer st @ [ch]\<rparr> else st);
          st2 = (if (endOfItem \<or> isLastLetter) \<and> buffer st1 \<noteq> []
                 then classifyItem P st1 else st1)
      in if ch = CHR ''+'' then st2\<lparr>isWanted := True\<rparr>
         else if ch = CHR ''-'' then st2\<lparr>isWanted := False\<rparr>
         else st2)"

text \<open>
  The loop over the characters that are left; \<open>isFirstLetter\<close> holds for the first
  one only, and the last letter is the one with nothing after it.
\<close>

primrec decodeChars :: "Platform \<Rightarrow> bool \<Rightarrow> string \<Rightarrow> DecodeState \<Rightarrow> DecodeState" where
  "decodeChars P isFirstLetter [] st = st"
| "decodeChars P isFirstLetter (ch # rest) st =
     decodeChars P False rest (decodeChar P ch isFirstLetter (rest = []) st)"

text \<open>What \<open>decodeSequence\<close> returns, and its five reference arguments on return.\<close>

record Decoded =
  returned :: bool
  keyCodeOut :: int
  modifiersOut :: "32 word"
  modifierMaskOut :: "32 word"
  flagsOut :: "32 word"
  flagMaskOut :: "32 word"

definition decodeSequence ::
    "Platform \<Rightarrow> string \<Rightarrow> int \<Rightarrow> 32 word \<Rightarrow> 32 word \<Rightarrow> 32 word \<Rightarrow> 32 word \<Rightarrow> Decoded" where
  "decodeSequence P text keyCode0 modifiers0 modifierMask0 flags0 flagMask0 =
     (let st = decodeChars P True text
                 \<lparr>buffer = [], isWanted = True, keyCodeRef = keyCode0,
                  tempModifiers = modifiers0, tempModifierMask = modifierMask0,
                  tempFlags = flags0, tempFlagMask = flagMask0\<rparr>
      in \<lparr>returned = True, keyCodeOut = keyCodeRef st,
          modifiersOut = tempModifiers st, modifierMaskOut = tempModifierMask st,
          flagsOut = tempFlags st, flagMaskOut = tempFlagMask st\<rparr>)"

section \<open>The reader\<close>

text \<open>
  The input device is the string of characters not yet read. \<open>QIODevice::readLine\<close>
  returns the characters up to and including the next line feed, or all that is left.
\<close>

definition readLine :: "string \<Rightarrow> string \<times> string" where
  "readLine src =
     (case dropWhile (\<lambda>c. c \<noteq> CHR 0x0A) src of
        [] \<Rightarrow> (src, [])
      | nl # rest \<Rightarrow> (takeWhile (\<lambda>c. c \<noteq> CHR 0x0A) src @ [nl], rest))"

record Reader =
  r_source :: string
  r_description :: string
  r_nextEntry :: Entry
  r_hasNext :: bool

text \<open>
  Lines 65 to 94 of \<open>readNext\<close>: the entry of a key line from its three tokens. The
  sequence is decoded from the key code \<open>Key_unknown\<close> and empty flag sets.
\<close>

definition makeEntry :: "Platform \<Rightarrow> Token list \<Rightarrow> Entry" where
  "makeEntry P tokens =
     (let d = decodeSequence P (toLower (tokenText (tokens ! 1))) (Key_unknown P) 0 0 0 0;
          (text, cmd) =
            (if tokenType (tokens ! 2) = OutputText then (tokenText (tokens ! 2), NoCommand)
             else if tokenType (tokens ! 2) = Command
               then ([], case parseAsCommand (tokenText (tokens ! 2)) of
                           None \<Rightarrow> NoCommand | Some c \<Rightarrow> c)
             else ([], NoCommand))
      in \<lparr>keyCode = keyCodeOut d, modifiers = modifiersOut d, modifierMask = modifierMaskOut d,
          state = flagsOut d, stateMask = flagMaskOut d, command = cmd, entryText = text\<rparr>)"

lemma readLine_shorter: "src \<noteq> [] \<Longrightarrow> length (snd (readLine src)) < length src"
proof -
  assume ne: "src \<noteq> []"
  have le: "length (dropWhile (\<lambda>c. c \<noteq> CHR 0x0A) src) \<le> length src"
    by (rule length_dropWhile_le)
  show ?thesis
  proof (cases "dropWhile (\<lambda>c. c \<noteq> CHR 0x0A) src")
    case Nil
    have "readLine src = (src, [])" unfolding readLine_def Nil by simp
    then show ?thesis using ne by simp
  next
    case (Cons nl rest)
    have "snd (readLine src) = rest" unfolding readLine_def Cons by simp
    then show ?thesis using le Cons by simp
  qed
qed

text \<open>
  Modelled from the spec: \<open>i18n\<close> is the localizer of the title, which the
  specification treats as the identity.
\<close>

definition i18n :: "string \<Rightarrow> string" where
  "i18n s = s"

text \<open>
  The loop of the constructor, which reads lines until it has a description or the input
  ends, and the loop of \<open>readNext\<close>, which reads lines until it has decoded a key line
  or the input ends. Each iteration reads a line from a non-empty input, so both end.
\<close>

function findDescription :: "Reader \<Rightarrow> Reader" where
  "findDescription r =
     (if r_description r = [] \<and> r_source r \<noteq> [] then
        (let tokens = tokenize (fst (readLine (r_source r)));
             r' = r\<lparr>r_source := snd (readLine (r_source r))\<rparr>
         in if tokens \<noteq> [] \<and> tokenType (hd tokens) = TitleKeyword
            then findDescription (r'\<lparr>r_description := i18n (tokenText (tokens ! 1))\<rparr>)
            else findDescription r')
      else r)"
  by pat_completeness auto
termination
  by (relation "measure (\<lambda>r. length (r_source r))") (auto simp: readLine_shorter)

function readNext :: "Platform \<Rightarrow> Reader \<Rightarrow> Reader" where
  "readNext P r =
     (if r_source r \<noteq> [] then
        (let tokens = tokenize (fst (readLine (r_source r)));
             r' = r\<lparr>r_source := snd (readLine (r_source r))\<rparr>
         in if tokens \<noteq> [] \<and> tokenType (hd tokens) = KeyKeyword
            then r'\<lparr>r_nextEntry := makeEntry P tokens, r_hasNext := True\<rparr>
            else readNext P r')
      else r\<lparr>r_hasNext := False\<rparr>)"
  by pat_completeness auto
termination
  by (relation "measure (\<lambda>(P, r). length (r_source r))") (auto simp: readLine_shorter)

declare findDescription.simps [simp del] readNext.simps [simp del]

text \<open>The constructor; \<open>_nextEntry()\<close> is the default-constructed entry.\<close>

definition KeyboardTranslatorReader :: "Platform \<Rightarrow> string \<Rightarrow> Reader" where
  "KeyboardTranslatorReader P src =
     readNext P (findDescription
       \<lparr>r_source = src, r_description = [], r_nextEntry = defaultEntry P, r_hasNext = False\<rparr>)"

definition description :: "Reader \<Rightarrow> string" where
  "description r = r_description r"

definition hasNextEntry :: "Reader \<Rightarrow> bool" where
  "hasNextEntry r = r_hasNext r"

text \<open>
  \<open>nextEntry\<close> asserts \<open>_hasNext\<close>: \<open>None\<close> is the failed assertion.
\<close>

definition nextEntry :: "Platform \<Rightarrow> Reader \<Rightarrow> (Entry \<times> Reader) option" where
  "nextEntry P r = (if r_hasNext r then Some (r_nextEntry r, readNext P r) else None)"

definition parseError :: "Reader \<Rightarrow> bool" where
  "parseError r = False"

text \<open>
  \<open>createEntry\<close> writes a title line and one key line into a buffer and reads it
  with a reader of its own.
\<close>

definition createEntry :: "Platform \<Rightarrow> string \<Rightarrow> string \<Rightarrow> Entry" where
  "createEntry P condition result =
     (let entryString =
            ''keyboard '' @ [CHR 0x22] @ ''temporary'' @ [CHR 0x22, CHR 0x0A] @ ''key ''
              @ condition @ '' : ''
              @ (if parseAsCommand result \<noteq> None then result
                 else [CHR 0x22] @ result @ [CHR 0x22]);
          reader = KeyboardTranslatorReader P entryString
      in if hasNextEntry reader
         then (case nextEntry P reader of None \<Rightarrow> defaultEntry P | Some (entry, _) \<Rightarrow> entry)
         else defaultEntry P)"

lemma readNext_source_le: "length (r_source (readNext P r)) \<le> length (r_source r)"
proof (induction P r rule: readNext.induct)
  case (1 P r)
  show ?case
  proof (cases "r_source r = []")
    case True
    then show ?thesis by (simp add: readNext.simps [of P r])
  next
    case False
    let ?tokens = "tokenize (fst (readLine (r_source r)))"
    let ?r' = "r\<lparr>r_source := snd (readLine (r_source r))\<rparr>"
    have sh: "length (snd (readLine (r_source r))) < length (r_source r)"
      using False by (rule readLine_shorter)
    show ?thesis
    proof (cases "?tokens \<noteq> [] \<and> tokenType (hd ?tokens) = KeyKeyword")
      case True
      then show ?thesis
        using False sh by (subst readNext.simps) (simp add: Let_def)
    next
      case nokey: False
      have "length (r_source (readNext P ?r')) \<le> length (r_source ?r')"
        using "1.IH" [OF False refl refl nokey] .
      then show ?thesis
        using False sh nokey by (subst readNext.simps) (simp add: Let_def)
    qed
  qed
qed

lemma readNext_source_less:
  "r_source r \<noteq> [] \<Longrightarrow> length (r_source (readNext P r)) < length (r_source r)"
proof -
  assume ne: "r_source r \<noteq> []"
  have sh: "length (snd (readLine (r_source r))) < length (r_source r)"
    using ne by (rule readLine_shorter)
  have "length (r_source (readNext P (r\<lparr>r_source := snd (readLine (r_source r))\<rparr>)))
      \<le> length (snd (readLine (r_source r)))"
    using readNext_source_le [of P "r\<lparr>r_source := snd (readLine (r_source r))\<rparr>"] by simp
  then show ?thesis
    using ne sh by (subst readNext.simps) (auto simp: Let_def)
qed

lemma readNext_hasNext_empty: "r_source r = [] \<Longrightarrow> \<not> r_hasNext (readNext P r)"
  by (simp add: readNext.simps [of P r])

text \<open>
  The loop of a caller that takes every entry:
  \<^verbatim>\<open>while (reader.hasNextEntry()) entries << reader.nextEntry();\<close>
\<close>

function allEntries :: "Platform \<Rightarrow> Reader \<Rightarrow> Entry list" where
  "allEntries P r =
     (if hasNextEntry r
      then (case nextEntry P r of None \<Rightarrow> [] | Some (entry, r') \<Rightarrow> entry # allEntries P r')
      else [])"
  by pat_completeness auto
termination
proof (relation "measure (\<lambda>(P, r). length (r_source r) + (if r_hasNext r then 1 else 0))", goal_cases)
  case 1
  then show ?case by simp
next
  case (2 P r x2 entry r')
  then have r': "r' = readNext P r" and h: "r_hasNext r"
    by (auto simp: nextEntry_def hasNextEntry_def split: if_splits)
  show ?case
  proof (cases "r_source r = []")
    case True
    then show ?thesis
      using r' h readNext_hasNext_empty [of r P] readNext_source_le [of P r] by simp
  next
    case False
    then show ?thesis
      using r' h readNext_source_less [of r P] by simp
  qed
qed

declare allEntries.simps [simp del]

text \<open>
  A platform to run the reader on: the modifier bits of Qt, the state bits of Konsole, and a
  key-name table that knows \<open>home\<close> and \<open>up\<close>.
\<close>

definition samplePlatform :: Platform where
  "samplePlatform =
     \<lparr>modifierValue = (\<lambda>m. case m of ShiftModifier \<Rightarrow> 0x02000000
          | ControlModifier \<Rightarrow> 0x04000000 | AltModifier \<Rightarrow> 0x08000000
          | MetaModifier \<Rightarrow> 0x10000000 | KeypadModifier \<Rightarrow> 0x20000000),
      stateValue = (\<lambda>s. case s of NewLineState \<Rightarrow> 1 | AnsiState \<Rightarrow> 2
          | CursorKeysState \<Rightarrow> 4 | AlternateScreenState \<Rightarrow> 8 | AnyModifierState \<Rightarrow> 16
          | ApplicationKeypadState \<Rightarrow> 32),
      fromString = (\<lambda>s. if s = ''home'' then [0x01000010]
          else if s = ''up'' then [0x01000013] else []),
      Key_unknown = 0x01ffffff,
      defaultEntry = \<lparr>keyCode = 0, modifiers = 0, modifierMask = 0, state = 0, stateMask = 0,
                       command = NoCommand, entryText = []\<rparr>\<rparr>"

section \<open>Comment stripping: where the line is cut\<close>

text \<open>
  The position at which a line is cut, stated without the loop.
  \<open>firstCommentStart inQuotes s\<close> is the leftmost index of \<open>s\<close> that holds a
  \<open>#\<close> and at which the backward scan is outside quotes: the scan enters \<open>s\<close> from
  the right with the flag \<open>inQuotes\<close> and has toggled it once for every double quote
  to the right of the index. \<open>lastCommentStart\<close> is the rightmost such index for the
  flag \<open>False\<close>: the first one the backward scan meets.
\<close>

definition quoteCount :: "string \<Rightarrow> nat" where
  "quoteCount s = length (filter (\<lambda>c. c = CHR 0x22) s)"

fun firstCommentStart :: "bool \<Rightarrow> string \<Rightarrow> nat option" where
  "firstCommentStart inQuotes [] = None"
| "firstCommentStart inQuotes (c # cs) =
     (if c = CHR ''#'' \<and> (inQuotes = odd (quoteCount cs)) then Some 0
      else map_option Suc (firstCommentStart inQuotes cs))"

fun lastCommentStart :: "string \<Rightarrow> nat option" where
  "lastCommentStart [] = None"
| "lastCommentStart (c # cs) =
     (case lastCommentStart cs of
        Some j \<Rightarrow> Some (Suc j)
      | None \<Rightarrow> if c = CHR ''#'' \<and> even (quoteCount cs) then Some 0 else None)"

lemma quoteCount_simps [simp]:
  "quoteCount [] = 0"
  "quoteCount (c # cs) = (if c = CHR 0x22 then Suc (quoteCount cs) else quoteCount cs)"
  by (simp_all add: quoteCount_def)

lemma quoteCount_append: "quoteCount (xs @ ys) = quoteCount xs + quoteCount ys"
  by (simp add: quoteCount_def)

lemma quoteCount_zero: "CHR 0x22 \<notin> set s \<Longrightarrow> quoteCount s = 0"
  by (induction s) auto

lemma firstCommentStart_snoc:
  "firstCommentStart q (xs @ [c]) =
     (if c = CHR 0x22 then firstCommentStart (\<not> q) xs
      else if c = CHR ''#'' \<and> \<not> q
        then (case firstCommentStart q xs of None \<Rightarrow> Some (length xs) | Some j \<Rightarrow> Some j)
      else firstCommentStart q xs)"
  by (induction xs) (auto simp: quoteCount_append split: option.splits)

text \<open>The loop, with \<open>n\<close> indices left, finds the leftmost comment start below \<open>n\<close>.\<close>

lemma commentScan_firstCommentStart:
  "n \<le> length text \<Longrightarrow>
   commentScan text n q cp =
     (case firstCommentStart q (take n text) of None \<Rightarrow> cp | Some j \<Rightarrow> int j)"
proof (induction n arbitrary: q cp)
  case 0
  then show ?case by simp
next
  case (Suc n)
  then have n: "n < length text" by simp
  then have tk: "take (Suc n) text = take n text @ [text ! n]"
    by (simp add: take_Suc_conv_app_nth)
  have len: "length (take n text) = n" using n by simp
  have ih: "\<And>q cp. commentScan text n q cp =
      (case firstCommentStart q (take n text) of None \<Rightarrow> cp | Some j \<Rightarrow> int j)"
    using Suc.IH n by simp
  consider (quote) "text ! n = CHR 0x22"
    | (hash) "text ! n = CHR ''#''" "\<not> q"
    | (quoted) "text ! n = CHR ''#''" "q"
    | (other) "text ! n \<noteq> CHR 0x22" "text ! n \<noteq> CHR ''#''"
    by blast
  then show ?case
  proof cases
    case quote
    then show ?thesis
      by (simp add: tk firstCommentStart_snoc ih)
  next
    case hash
    then show ?thesis
      using n
      by (simp add: tk firstCommentStart_snoc ih len split: option.splits)
  next
    case quoted
    then show ?thesis
      by (simp add: tk firstCommentStart_snoc ih)
  next
    case other
    then show ?thesis
      by (simp add: tk firstCommentStart_snoc ih)
  qed
qed

lemma stripComments_eq:
  "stripComments text =
     (case firstCommentStart False text of None \<Rightarrow> text | Some j \<Rightarrow> take j text)"
  by (simp add: stripComments_def commentScan_firstCommentStart Let_def split: option.splits)

lemma firstCommentStart_append_even:
  "even (quoteCount ys) \<Longrightarrow>
   firstCommentStart q (xs @ ys) =
     (case firstCommentStart q xs of
        Some j \<Rightarrow> Some j
      | None \<Rightarrow>
          (case firstCommentStart q ys of None \<Rightarrow> None | Some j \<Rightarrow> Some (length xs + j)))"
proof (induction xs)
  case Nil
  then show ?case by (simp split: option.splits)
next
  case (Cons a xs)
  have par: "odd (quoteCount (xs @ ys)) = odd (quoteCount xs)"
    using Cons.prems by (simp add: quoteCount_append)
  show ?case
    using Cons.IH [OF Cons.prems]
    by (cases "firstCommentStart q xs"; cases "firstCommentStart q ys"; simp add: par)
qed

lemma firstCommentStart_no_quote:
  "CHR 0x22 \<notin> set s \<Longrightarrow> firstCommentStart True s = None"
proof (induction s)
  case Nil
  then show ?case by simp
next
  case (Cons a s)
  then have "quoteCount s = 0" by (simp add: quoteCount_zero)
  with Cons show ?case by simp
qed

lemma quoted_no_comment:
  assumes "CHR 0x22 \<notin> set mid"
  shows "firstCommentStart False (CHR 0x22 # mid @ [CHR 0x22]) = None"
proof -
  have "firstCommentStart False (mid @ [CHR 0x22]) = None"
    using assms by (simp add: firstCommentStart_snoc firstCommentStart_no_quote)
  then show ?thesis by simp
qed

text \<open>
  Claim C3, as amended. The backward scan does not stop at the first \<open>#\<close> it meets
  outside quotes: it goes on to index 0 and every later such \<open>#\<close> overwrites
  \<open>commentPos\<close>. The line is therefore cut at the last \<open>#\<close> the scan meets outside
  quotes, which is the leftmost \<open>#\<close> of the line with an even number of double quotes
  after it; with no such \<open>#\<close> the position stays \<open>-1\<close> and the line is unchanged.
\<close>

theorem stripComments_leftmost:
  "commentScan text (length text) False (- 1) =
     (case firstCommentStart False text of None \<Rightarrow> - 1 | Some j \<Rightarrow> int j)
   \<and> stripComments text =
     (case firstCommentStart False text of None \<Rightarrow> text | Some j \<Rightarrow> take j text)"
  by (simp add: stripComments_eq commentScan_firstCommentStart)

theorem stripComments_leftmost_witness:
  "commentScan ''key a : b # c # d'' (length ''key a : b # c # d'') False (- 1) = 10
   \<and> stripComments ''key a : b # c # d'' = ''key a : b ''"
  using stripComments_leftmost [of "''key a : b # c # d''"] by simp

text \<open>
  The claim as it stands fails on a line with two \<open>#\<close>: the first one the backward scan
  meets is at index 3, and the line is cut at index 1.
\<close>

theorem stripComments_first_seen_counterexample:
  "lastCommentStart ''a#b#c'' = Some 3
   \<and> stripComments ''a#b#c'' = ''a''
   \<and> stripComments ''a#b#c'' \<noteq> take 3 ''a#b#c''"
  by (simp add: stripComments_eq)

text \<open>
  Claim C2, as amended. A quoted string (an opening double quote, text without a double
  quote, a closing double quote) survives comment stripping unchanged, with the text before
  it and whatever \<open>#\<close> it holds, when no comment starts before it (no \<open>#\<close> of the
  text before it has an even number of double quotes after it in that text) and the rest
  of the line holds an even number of double quotes. Stripping then acts on the rest of the
  line alone.
\<close>

theorem quoted_hash_survives:
  assumes "firstCommentStart False pre = None"
    and "CHR 0x22 \<notin> set mid"
    and "even (quoteCount post)"
  shows "stripComments (pre @ CHR 0x22 # mid @ CHR 0x22 # post) =
           pre @ CHR 0x22 # mid @ CHR 0x22 # stripComments post"
proof -
  let ?q = "CHR 0x22 # mid @ [CHR 0x22]"
  have qc: "quoteCount ?q = 2"
    using assms(2) by (simp add: quoteCount_append quoteCount_zero)
  have a: "firstCommentStart False (pre @ ?q) = None"
    using assms(1) quoted_no_comment [OF assms(2)] qc
    by (simp add: firstCommentStart_append_even [of ?q])
  have "pre @ CHR 0x22 # mid @ CHR 0x22 # post = (pre @ ?q) @ post" by simp
  then have "firstCommentStart False (pre @ CHR 0x22 # mid @ CHR 0x22 # post) =
      (case firstCommentStart False post of None \<Rightarrow> None
       | Some j \<Rightarrow> Some (length (pre @ ?q) + j))"
    using firstCommentStart_append_even [OF assms(3), of False "pre @ ?q"] a
    by simp
  then show ?thesis
    by (simp add: stripComments_eq split: option.splits)
qed

theorem quoted_hash_survives_witness:
  "firstCommentStart False ''key x : '' = None
   \<and> CHR 0x22 \<notin> set ''a#b''
   \<and> even (quoteCount '' # c'')
   \<and> stripComments ''key x : \"a#b\" # c'' = ''key x : \"a#b\" ''"
  using quoted_hash_survives [of "''key x : ''" "''a#b''" "'' # c''"]
  by (simp add: stripComments_eq)

text \<open>
  The claim as it stands fails when a comment starts before the quoted string, and when
  a double quote without a partner follows it: in both lines the second character \<open>#\<close>
  stands between two double quotes and is cut off.
\<close>

theorem quoted_hash_counterexample:
  "stripComments ''#\"#\"'' = []
   \<and> stripComments ''\"#\"\"'' = ''\"''"
  by (simp add: stripComments_eq)

section \<open>Decoding: the items of a sequence\<close>

text \<open>
  The loop of \<open>decodeSequence\<close> cuts the sequence into items and classifies each. The
  items it classifies, each with the value of \<open>isWanted\<close> at that moment, are listed by
  \<open>decodeItems\<close>, which runs the same buffer and the same flag without the
  classification; \<open>applyItem\<close> is the classification of one item, and the lemma
  \<open>decodeSequence_accs\<close> below shows that the loop computes exactly the items applied
  in order.
\<close>

fun decodeItems :: "bool \<Rightarrow> string \<Rightarrow> string \<Rightarrow> bool \<Rightarrow> (string \<times> bool) list" where
  "decodeItems isFirstLetter [] buf wanted = []"
| "decodeItems isFirstLetter (ch # rest) buf wanted =
     (let buf1 = (if isLetterOrNumber ch \<or> isFirstLetter then buf @ [ch] else buf);
          closes = ((\<not> isLetterOrNumber ch \<or> rest = []) \<and> buf1 \<noteq> []);
          wanted1 = (if ch = CHR ''+'' then True else if ch = CHR ''-'' then False else wanted)
      in (if closes then [(buf1, wanted)] else [])
           @ decodeItems False rest (if closes then [] else buf1) wanted1)"

text \<open>The classification of one listed item.\<close>

definition applyItem :: "Platform \<Rightarrow> DecodeState \<Rightarrow> string \<times> bool \<Rightarrow> DecodeState" where
  "applyItem P st item = classifyItem P (st\<lparr>buffer := fst item, isWanted := snd item\<rparr>)"

text \<open>
  The key code of an item that reaches the third branch and names a key: it is neither a
  modifier nor a state flag, and the key-name table knows it.
\<close>

definition itemKeyCode :: "Platform \<Rightarrow> string \<Rightarrow> int option" where
  "itemKeyCode P item =
     (if parseAsModifier item = None \<and> parseAsStateFlag item = None
      then parseAsKeyCode P item else None)"

text \<open>The five results the loop accumulates.\<close>

definition accs :: "DecodeState \<Rightarrow> int \<times> 32 word \<times> 32 word \<times> 32 word \<times> 32 word" where
  "accs st = (keyCodeRef st, tempModifiers st, tempModifierMask st, tempFlags st, tempFlagMask st)"


lemma classifyItem_buffer [simp]: "buffer (classifyItem P st) = []"
  by (simp add: classifyItem_def split: option.splits)

lemma classifyItem_isWanted [simp]: "isWanted (classifyItem P st) = isWanted st"
  by (simp add: classifyItem_def split: option.splits)

lemma applyItem_accs: "accs s1 = accs s2 \<Longrightarrow> applyItem P s1 item = applyItem P s2 item"
  by (cases s1; cases s2) (simp add: accs_def applyItem_def classifyItem_def split: option.splits)

lemma foldl_applyItem_accs:
  "accs s1 = accs s2 \<Longrightarrow> accs (foldl (applyItem P) s1 items) = accs (foldl (applyItem P) s2 items)"
  by (cases items) (simp_all add: applyItem_accs [of s1 s2])

lemma accs_update [simp]:
  "accs (st\<lparr>buffer := b\<rparr>) = accs st" "accs (st\<lparr>isWanted := w\<rparr>) = accs st"
  by (simp_all add: accs_def)

lemma decodeChar_items:
  "accs (decodeChar P ch f l st) =
     accs (if (\<not> isLetterOrNumber ch \<or> l) \<and> (if isLetterOrNumber ch \<or> f then buffer st @ [ch] else buffer st) \<noteq> []
           then applyItem P st (if isLetterOrNumber ch \<or> f then buffer st @ [ch] else buffer st, isWanted st) else st)"
  "buffer (decodeChar P ch f l st) =
     (if (\<not> isLetterOrNumber ch \<or> l) \<and> (if isLetterOrNumber ch \<or> f then buffer st @ [ch] else buffer st) \<noteq> []
      then [] else (if isLetterOrNumber ch \<or> f then buffer st @ [ch] else buffer st))"
  "isWanted (decodeChar P ch f l st) =
     (if ch = CHR ''+'' then True else if ch = CHR ''-'' then False else isWanted st)"
  by (simp_all add: decodeChar_def Let_def applyItem_def)

lemma decodeChars_items:
  "accs (decodeChars P f cs st) =
     accs (foldl (applyItem P) st (decodeItems f cs (buffer st) (isWanted st)))"
proof (induction cs arbitrary: f st)
  case Nil
  then show ?case by simp
next
  case (Cons ch rest)
  let ?buf1 = "if isLetterOrNumber ch \<or> f then buffer st @ [ch] else buffer st"
  let ?closes = "(\<not> isLetterOrNumber ch \<or> rest = []) \<and> ?buf1 \<noteq> []"
  let ?st' = "decodeChar P ch f (rest = []) st"
  let ?mid = "if ?closes then applyItem P st (?buf1, isWanted st) else st"
  have a: "accs ?st' = accs ?mid" by (rule decodeChar_items(1))
  have b: "buffer ?st' = (if ?closes then [] else ?buf1)" by (rule decodeChar_items(2))
  have w: "isWanted ?st' = (if ch = CHR ''+'' then True else if ch = CHR ''-'' then False else isWanted st)"
    by (rule decodeChar_items(3))
  have "accs (decodeChars P f (ch # rest) st) =
      accs (foldl (applyItem P) ?st' (decodeItems False rest (buffer ?st') (isWanted ?st')))"
    by (simp add: Cons.IH)
  also have "\<dots> = accs (foldl (applyItem P) ?mid (decodeItems False rest (buffer ?st') (isWanted ?st')))"
    by (rule foldl_applyItem_accs [OF a])
  also have "\<dots> = accs (foldl (applyItem P) st (decodeItems f (ch # rest) (buffer st) (isWanted st)))"
    unfolding b w by (simp add: Let_def)
  finally show ?case .
qed

lemma keyCodeRef_applyItem:
  "keyCodeRef (applyItem P st item) =
     (case itemKeyCode P (fst item) of None \<Rightarrow> keyCodeRef st | Some k \<Rightarrow> k)"
  by (simp add: applyItem_def classifyItem_def itemKeyCode_def split: option.splits)

lemma keyCodeRef_foldl:
  "keyCodeRef (foldl (applyItem P) st items) =
     last (keyCodeRef st # List.map_filter (itemKeyCode P) (map fst items))"
proof (induction items arbitrary: st)
  case Nil
  then show ?case by (simp add: List.map_filter_simps)
next
  case (Cons a items)
  show ?case
    by (cases "itemKeyCode P (fst a)")
       (simp_all add: Cons.IH keyCodeRef_applyItem List.map_filter_simps)
qed

lemma decodeSequence_accs:
  "decodeSequence P cs k m mm f fm =
     (let st = foldl (applyItem P)
                 \<lparr>buffer = [], isWanted = True, keyCodeRef = k, tempModifiers = m,
                  tempModifierMask = mm, tempFlags = f, tempFlagMask = fm\<rparr>
                 (decodeItems True cs [] True)
      in \<lparr>returned = True, keyCodeOut = keyCodeRef st,
          modifiersOut = tempModifiers st, modifierMaskOut = tempModifierMask st,
          flagsOut = tempFlags st, flagMaskOut = tempFlagMask st\<rparr>)"
  using decodeChars_items [of P True cs "\<lparr>buffer = [], isWanted = True, keyCodeRef = k, tempModifiers = m,
                  tempModifierMask = mm, tempFlags = f, tempFlagMask = fm\<rparr>"]
  by (simp add: decodeSequence_def accs_def Let_def)

lemma letter_not_sign: "isLetterOrNumber ch \<Longrightarrow> ch \<noteq> CHR ''+'' \<and> ch \<noteq> CHR ''-''"
  by (auto simp: isLetterOrNumber_def)

lemma first_item_wanted:
  "f \<or> buf \<noteq> [] \<Longrightarrow> decodeItems f cs buf True = (item, wanted) # rest \<Longrightarrow> wanted"
proof (induction cs arbitrary: f buf)
  case Nil
  then show ?case by simp
next
  case (Cons ch cs)
  let ?buf1 = "if isLetterOrNumber ch \<or> f then buf @ [ch] else buf"
  have b1: "?buf1 \<noteq> []" using Cons.prems(1) by auto
  show ?case
  proof (cases "\<not> isLetterOrNumber ch \<or> cs = []")
    case True
    then show ?thesis using Cons.prems(2) b1 by (simp add: Let_def split: if_splits)
  next
    case False
    then have l: "isLetterOrNumber ch" and ne: "cs \<noteq> []" by auto
    have "decodeItems False cs (buf @ [ch]) True = (item, wanted) # rest"
      using Cons.prems(2) l ne letter_not_sign [OF l] by (simp add: Let_def)
    then show ?thesis
      using Cons.IH [of False "buf @ [ch]"] by simp
  qed
qed

lemma and_or_keep: "(a :: 32 word) AND x = x \<Longrightarrow> (a OR b) AND x = x"
  by (metis bit.conj_disj_distrib2 word_bw_comms(1) word_ao_absorbs(2) word_bw_assocs(2))

lemma mask_covers_or: "(a :: 32 word) AND m = a \<Longrightarrow> (a OR b) AND (m OR b) = a OR b"
  by (metis bit.disj_conj_distrib2)

lemma mask_covers_grow: "(a :: 32 word) AND m = a \<Longrightarrow> a AND (m OR b) = a"
  by (metis and.assoc word_ao_absorbs(3))

text \<open>Every value bit is a mask bit, in the loop and in an entry.\<close>

definition maskCovers :: "DecodeState \<Rightarrow> bool" where
  "maskCovers st =
     (tempModifiers st AND tempModifierMask st = tempModifiers st
      \<and> tempFlags st AND tempFlagMask st = tempFlags st)"

lemma maskCovers_applyItem: "maskCovers st \<Longrightarrow> maskCovers (applyItem P st item)"
  by (simp add: maskCovers_def applyItem_def classifyItem_def mask_covers_or mask_covers_grow
      split: option.splits)

lemma maskCovers_foldl: "maskCovers st \<Longrightarrow> maskCovers (foldl (applyItem P) st items)"
  by (induction items arbitrary: st) (simp_all add: maskCovers_applyItem)

lemma decodeSequence_maskCovers:
  assumes "m AND mm = m" and "f AND fm = f"
  shows "modifiersOut (decodeSequence P cs k m mm f fm) AND modifierMaskOut (decodeSequence P cs k m mm f fm)
           = modifiersOut (decodeSequence P cs k m mm f fm)
       \<and> flagsOut (decodeSequence P cs k m mm f fm) AND flagMaskOut (decodeSequence P cs k m mm f fm)
           = flagsOut (decodeSequence P cs k m mm f fm)"
proof -
  let ?st0 = "\<lparr>buffer = [], isWanted = True, keyCodeRef = k, tempModifiers = m,
                  tempModifierMask = mm, tempFlags = f, tempFlagMask = fm\<rparr>"
  have "maskCovers ?st0" using assms by (simp add: maskCovers_def)
  then have "maskCovers (foldl (applyItem P) ?st0 (decodeItems True cs [] True))"
    by (rule maskCovers_foldl)
  then show ?thesis
    by (simp add: decodeSequence_accs Let_def maskCovers_def)
qed

definition entryMaskCovers :: "Entry \<Rightarrow> bool" where
  "entryMaskCovers e = (modifiers e AND modifierMask e = modifiers e \<and> state e AND stateMask e = state e)"

lemma makeEntry_maskCovers: "entryMaskCovers (makeEntry P tokens)"
  using decodeSequence_maskCovers [of 0 0 0 0 P "toLower (tokenText (tokens ! 1))" "Key_unknown P"]
  by (simp add: makeEntry_def entryMaskCovers_def Let_def split: prod.splits)

text \<open>A key line is a line whose first token is the key keyword.\<close>

definition isKeyLine :: "string \<Rightarrow> bool" where
  "isKeyLine line = (tokenize line \<noteq> [] \<and> tokenType (hd (tokenize line)) = KeyKeyword)"

text \<open>
  \<open>readNext\<close> reads \<open>tokens[1]\<close> and \<open>tokens[2]\<close> of a key line only, and a
  key line has three tokens: both indices are inside the list.
\<close>

lemma isKeyLine_three_tokens: "isKeyLine line \<Longrightarrow> length (tokenize line) = 3"
  by (auto simp: isKeyLine_def tokenize_def Let_def split: if_splits option.splits)

lemma readNext_empty: "r_source r = [] \<Longrightarrow> readNext P r = r\<lparr>r_hasNext := False\<rparr>"
  by (simp add: readNext.simps [of P r])

lemma readNext_key:
  "r_source r \<noteq> [] \<Longrightarrow> isKeyLine (fst (readLine (r_source r))) \<Longrightarrow>
   readNext P r = r\<lparr>r_source := snd (readLine (r_source r)),
                     r_nextEntry := makeEntry P (tokenize (fst (readLine (r_source r)))),
                     r_hasNext := True\<rparr>"
  by (subst readNext.simps) (auto simp: Let_def isKeyLine_def)

lemma readNext_skip:
  "r_source r \<noteq> [] \<Longrightarrow> \<not> isKeyLine (fst (readLine (r_source r))) \<Longrightarrow>
   readNext P r = readNext P (r\<lparr>r_source := snd (readLine (r_source r))\<rparr>)"
  by (subst readNext.simps) (auto simp: Let_def isKeyLine_def)

lemma readNext_maskCovers:
  "r_hasNext (readNext P r) \<Longrightarrow> entryMaskCovers (r_nextEntry (readNext P r))"
proof (induction P r rule: readNext.induct)
  case (1 P r)
  show ?case
  proof (cases "r_source r = []")
    case True
    then show ?thesis using "1.prems" by (simp add: readNext_empty)
  next
    case False
    show ?thesis
    proof (cases "isKeyLine (fst (readLine (r_source r)))")
      case True
      then show ?thesis
        using False by (simp add: readNext_key makeEntry_maskCovers)
    next
      case nokey: False
      then have nk: "\<not> (tokenize (fst (readLine (r_source r))) \<noteq> [] \<and>
          tokenType (hd (tokenize (fst (readLine (r_source r))))) = KeyKeyword)"
        by (simp add: isKeyLine_def)
      show ?thesis
        using "1.IH" [OF False refl refl nk] "1.prems"
        unfolding readNext_skip [OF False nokey] by simp
    qed
  qed
qed

lemma allEntries_maskCovers:
  "(r_hasNext r \<Longrightarrow> entryMaskCovers (r_nextEntry r)) \<Longrightarrow>
   e \<in> set (allEntries P r) \<Longrightarrow> entryMaskCovers e"
proof (induction P r rule: allEntries.induct)
  case (1 P r)
  show ?case
  proof (cases "r_hasNext r")
    case False
    then show ?thesis using "1.prems"(2)
      by (simp add: allEntries.simps [of P r] hasNextEntry_def)
  next
    case True
    have ne: "nextEntry P r = Some (r_nextEntry r, readNext P r)"
      using True by (simp add: nextEntry_def)
    have unf: "allEntries P r = r_nextEntry r # allEntries P (readNext P r)"
      using True ne by (subst allEntries.simps) (simp add: hasNextEntry_def)
    have ih: "e \<in> set (allEntries P (readNext P r)) \<Longrightarrow> entryMaskCovers e"
      using "1.IH" [of "(r_nextEntry r, readNext P r)" "r_nextEntry r" "readNext P r"] True ne
        readNext_maskCovers [of P r]
      by (simp add: hasNextEntry_def)
    show ?thesis
      using "1.prems" True ih unfolding unf by auto
  qed
qed


lemma home_items:
  "decodeItems True ''home-anymod-appcukeys'' [] True =
     [(''home'', True), (''anymod'', False), (''appcukeys'', False)]"
  by code_simp

lemma tempModifiers_applyItem_keeps:
  "tempModifiers st AND x = x \<Longrightarrow> tempModifiers (applyItem P st item) AND x = x"
  by (simp add: applyItem_def classifyItem_def and_or_keep split: option.splits)

lemma tempFlags_applyItem_keeps:
  "tempFlags st AND x = x \<Longrightarrow> tempFlags (applyItem P st item) AND x = x"
  by (simp add: applyItem_def classifyItem_def and_or_keep split: option.splits)

lemma tempModifiers_foldl_keeps:
  "tempModifiers st AND x = x \<Longrightarrow> tempModifiers (foldl (applyItem P) st items) AND x = x"
  by (induction items arbitrary: st) (simp_all add: tempModifiers_applyItem_keeps)

lemma tempFlags_foldl_keeps:
  "tempFlags st AND x = x \<Longrightarrow> tempFlags (foldl (applyItem P) st items) AND x = x"
  by (induction items arbitrary: st) (simp_all add: tempFlags_applyItem_keeps)

lemma first_item_modifier:
  assumes "decodeItems True cs [] True = (item, wanted) # rest"
    and "parseAsModifier item = Some m"
  shows "modifiersOut (decodeSequence P cs k mo mm fl fm) AND modifierValue P m = modifierValue P m"
proof -
  have w: "wanted" using first_item_wanted [OF _ assms(1)] by simp
  let ?st0 = "\<lparr>buffer = [], isWanted = True, keyCodeRef = k, tempModifiers = mo,
                  tempModifierMask = mm, tempFlags = fl, tempFlagMask = fm\<rparr>"
  have "tempModifiers (applyItem P ?st0 (item, wanted)) AND modifierValue P m = modifierValue P m"
    using w assms(2) by (simp add: applyItem_def classifyItem_def)
  then have "tempModifiers (foldl (applyItem P) (applyItem P ?st0 (item, wanted)) rest)
      AND modifierValue P m = modifierValue P m"
    by (rule tempModifiers_foldl_keeps)
  then show ?thesis
    by (simp add: decodeSequence_accs Let_def assms(1))
qed

lemma first_item_flag:
  assumes "decodeItems True cs [] True = (item, wanted) # rest"
    and "parseAsModifier item = None" and "parseAsStateFlag item = Some s"
  shows "flagsOut (decodeSequence P cs k mo mm fl fm) AND stateValue P s = stateValue P s"
proof -
  have w: "wanted" using first_item_wanted [OF _ assms(1)] by simp
  let ?st0 = "\<lparr>buffer = [], isWanted = True, keyCodeRef = k, tempModifiers = mo,
                  tempModifierMask = mm, tempFlags = fl, tempFlagMask = fm\<rparr>"
  have "tempFlags (applyItem P ?st0 (item, wanted)) AND stateValue P s = stateValue P s"
    using w assms(2,3) by (simp add: applyItem_def classifyItem_def)
  then have "tempFlags (foldl (applyItem P) (applyItem P ?st0 (item, wanted)) rest)
      AND stateValue P s = stateValue P s"
    by (rule tempFlags_foldl_keeps)
  then show ?thesis
    by (simp add: decodeSequence_accs Let_def assms(1))
qed

lemma classify_home_items:
  "parseAsModifier ''home'' = None" "parseAsStateFlag ''home'' = None"
  "parseAsModifier ''anymod'' = None" "parseAsStateFlag ''anymod'' = Some AnyModifierState"
  "parseAsModifier ''appcukeys'' = None" "parseAsStateFlag ''appcukeys'' = Some CursorKeysState"
  by (simp_all add: parseAsModifier_def parseAsStateFlag_def)

lemma home_concrete:
  assumes "fromString P ''home'' = home # others"
  shows "decodeSequence P ''home-anymod-appcukeys'' k 0 0 0 0 =
           \<lparr>returned = True, keyCodeOut = home, modifiersOut = 0, modifierMaskOut = 0,
            flagsOut = 0,
            flagMaskOut = stateValue P AnyModifierState OR stateValue P CursorKeysState\<rparr>"
proof -
  let ?st0 = "\<lparr>buffer = [], isWanted = True, keyCodeRef = k, tempModifiers = 0,
                  tempModifierMask = 0, tempFlags = 0, tempFlagMask = 0\<rparr>"
  have k: "parseAsKeyCode P ''home'' = Some home"
    using assms by (simp add: parseAsKeyCode_def)
  have s1: "applyItem P ?st0 (''home'', True) = ?st0\<lparr>keyCodeRef := home\<rparr>"
    by (simp add: applyItem_def classifyItem_def classify_home_items k)
  have s2: "applyItem P (?st0\<lparr>keyCodeRef := home\<rparr>) (''anymod'', False) =
      ?st0\<lparr>keyCodeRef := home, isWanted := False, tempFlagMask := stateValue P AnyModifierState\<rparr>"
    by (simp add: applyItem_def classifyItem_def classify_home_items)
  have s3: "applyItem P (?st0\<lparr>keyCodeRef := home, isWanted := False,
        tempFlagMask := stateValue P AnyModifierState\<rparr>) (''appcukeys'', False) =
      ?st0\<lparr>keyCodeRef := home, isWanted := False,
        tempFlagMask := stateValue P AnyModifierState OR stateValue P CursorKeysState\<rparr>"
    by (simp add: applyItem_def classifyItem_def classify_home_items)
  show ?thesis
    unfolding decodeSequence_accs home_items
    by (simp only: foldl.simps s1 s2 s3 Let_def) simp
qed

lemma sample_home: "fromString samplePlatform ''home'' = [0x01000010]"
  by (simp add: samplePlatform_def)

text \<open>A leading separator and the name after it.\<close>

lemma decodeItems_letters:
  "list_all isLetterOrNumber name \<Longrightarrow> after \<noteq> [] \<Longrightarrow>
     decodeItems False (name @ after) buf w = decodeItems False after (buf @ name) w"
proof (induction name arbitrary: buf)
  case Nil
  then show ?case by simp
next
  case (Cons ch name)
  have l: "isLetterOrNumber ch" using Cons.prems(1) by simp
  show ?case
    using Cons.prems Cons.IH [of "buf @ [ch]"] l letter_not_sign [OF l]
    by (simp add: Let_def)
qed

lemma decodeItems_letters_end:
  "name \<noteq> [] \<Longrightarrow> list_all isLetterOrNumber name \<Longrightarrow>
     decodeItems False name buf w = [(buf @ name, w)]"
proof (induction name arbitrary: buf)
  case Nil
  then show ?case by simp
next
  case (Cons ch name)
  have l: "isLetterOrNumber ch" using Cons.prems(2) by simp
  show ?case
  proof (cases "name = []")
    case True
    then show ?thesis using l letter_not_sign [OF l] by (simp add: Let_def)
  next
    case False
    then show ?thesis
      using Cons.prems Cons.IH [of "buf @ [ch]"] l letter_not_sign [OF l]
      by (simp add: Let_def)
  qed
qed

lemma decodeItems_separator:
  "\<not> isLetterOrNumber d \<Longrightarrow> f \<or> buf \<noteq> [] \<Longrightarrow>
     decodeItems f (d # r) buf w =
       ((if f then buf @ [d] else buf), w) #
         decodeItems False r [] (if d = CHR ''+'' then True else if d = CHR ''-'' then False else w)"
  by (auto simp add: Let_def)

lemma decodeItems_leading_separator:
  "\<not> isLetterOrNumber c \<Longrightarrow>
     decodeItems True (c # cs) [] True = ([c], True) # decodeItems False cs [] (c \<noteq> CHR ''-'')"
  by (simp add: decodeItems_separator)

lemma decodeItems_name:
  assumes "name \<noteq> []" and "list_all isLetterOrNumber name"
    and "after = [] \<or> \<not> isLetterOrNumber (hd after)"
  shows "decodeItems False (name @ after) [] w =
           (name, w) #
             (case after of [] \<Rightarrow> []
              | d # r \<Rightarrow> decodeItems False r []
                  (if d = CHR ''+'' then True else if d = CHR ''-'' then False else w))"
proof (cases after)
  case Nil
  then show ?thesis
    using assms by (simp add: decodeItems_letters_end)
next
  case (Cons d r)
  then have d: "\<not> isLetterOrNumber d" using assms(3) by simp
  have "decodeItems False (name @ d # r) [] w = decodeItems False (d # r) ([] @ name) w"
    by (rule decodeItems_letters [OF assms(2)]) simp
  also have "\<dots> = (name, w) # decodeItems False r []
      (if d = CHR ''+'' then True else if d = CHR ''-'' then False else w)"
    using decodeItems_separator [OF d, of False name r w] assms(1) by simp
  finally show ?thesis
    unfolding Cons by (simp only: list.case)
qed

lemma decodeItems_name_after_separator:
  assumes "\<not> isLetterOrNumber c" and "name \<noteq> []" and "list_all isLetterOrNumber name"
    and "after = [] \<or> \<not> isLetterOrNumber (hd after)"
  shows "decodeItems True (c # name @ after) [] True =
           ([c], True) # (name, c \<noteq> CHR ''-'') #
             (case after of [] \<Rightarrow> []
              | d # r \<Rightarrow> decodeItems False r []
                  (if d = CHR ''+'' then True else if d = CHR ''-'' then False
                   else c \<noteq> CHR ''-''))"
  unfolding decodeItems_leading_separator [OF assms(1)] decodeItems_name [OF assms(2,3,4)]
  by (rule refl)


lemma modifier_names:
  "parseAsModifier name = Some m \<Longrightarrow>
     name \<in> set [''shift'', ''ctrl'', ''control'', ''alt'', ''meta'', ''keypad'']"
proof (rule ccontr)
  assume "name \<notin> set [''shift'', ''ctrl'', ''control'', ''alt'', ''meta'', ''keypad'']"
  then have "parseAsModifier name = None" by (simp add: parseAsModifier_def)
  moreover assume "parseAsModifier name = Some m"
  ultimately show False by simp
qed

lemma flag_names:
  "parseAsStateFlag name = Some s \<Longrightarrow>
     name \<in> set [''appcukeys'', ''appcursorkeys'', ''ansi'', ''newline'', ''appscreen'',
                  ''anymod'', ''anymodifier'', ''appkeypad'']"
proof (rule ccontr)
  assume "name \<notin> set [''appcukeys'', ''appcursorkeys'', ''ansi'', ''newline'', ''appscreen'',
                  ''anymod'', ''anymodifier'', ''appkeypad'']"
  then have "parseAsStateFlag name = None" by (simp add: parseAsStateFlag_def)
  moreover assume "parseAsStateFlag name = Some s"
  ultimately show False by simp
qed

lemma names_letters:
  "list_all (\<lambda>n. n \<noteq> [] \<and> list_all isLetterOrNumber n)
     [''shift'', ''ctrl'', ''control'', ''alt'', ''meta'', ''keypad'']"
  "list_all (\<lambda>n. n \<noteq> [] \<and> list_all isLetterOrNumber n \<and> parseAsModifier n = None)
     [''appcukeys'', ''appcursorkeys'', ''ansi'', ''newline'', ''appscreen'',
      ''anymod'', ''anymodifier'', ''appkeypad'']"
  by code_simp+

lemma modifier_name_letters:
  "parseAsModifier name = Some m \<Longrightarrow> name \<noteq> [] \<and> list_all isLetterOrNumber name"
  using modifier_names [of name m] names_letters(1) unfolding list_all_iff by blast

lemma flag_name_letters:
  "parseAsStateFlag name = Some s \<Longrightarrow>
     name \<noteq> [] \<and> list_all isLetterOrNumber name \<and> parseAsModifier name = None"
  using flag_names [of name s] names_letters(2) unfolding list_all_iff by blast

lemma single_char_no_name:
  "parseAsModifier [c] = None" "parseAsStateFlag [c] = None"
  by (simp_all add: parseAsModifier_def parseAsStateFlag_def)

lemma tempModifierMask_applyItem_keeps:
  "tempModifierMask st AND x = x \<Longrightarrow> tempModifierMask (applyItem P st item) AND x = x"
  by (simp add: applyItem_def classifyItem_def and_or_keep split: option.splits)

lemma tempFlagMask_applyItem_keeps:
  "tempFlagMask st AND x = x \<Longrightarrow> tempFlagMask (applyItem P st item) AND x = x"
  by (simp add: applyItem_def classifyItem_def and_or_keep split: option.splits)

lemma tempModifierMask_foldl_keeps:
  "tempModifierMask st AND x = x \<Longrightarrow> tempModifierMask (foldl (applyItem P) st items) AND x = x"
  by (induction items arbitrary: st) (simp_all add: tempModifierMask_applyItem_keeps)

lemma tempFlagMask_foldl_keeps:
  "tempFlagMask st AND x = x \<Longrightarrow> tempFlagMask (foldl (applyItem P) st items) AND x = x"
  by (induction items arbitrary: st) (simp_all add: tempFlagMask_applyItem_keeps)

lemma applyItem_separator:
  "applyItem P st ([c], w) =
     st\<lparr>buffer := [], isWanted := w,
        keyCodeRef := (case parseAsKeyCode P [c] of None \<Rightarrow> keyCodeRef st | Some x \<Rightarrow> x)\<rparr>"
  by (simp add: applyItem_def classifyItem_def single_char_no_name split: option.splits)

lemma applyItem_modifier:
  "parseAsModifier name = Some m \<Longrightarrow>
     applyItem P st (name, w) =
       st\<lparr>buffer := [], isWanted := w,
          tempModifierMask := tempModifierMask st OR modifierValue P m,
          tempModifiers := (if w then tempModifiers st OR modifierValue P m
                            else tempModifiers st)\<rparr>"
  by (simp add: applyItem_def classifyItem_def)

lemma applyItem_flag:
  "parseAsModifier name = None \<Longrightarrow> parseAsStateFlag name = Some s \<Longrightarrow>
     applyItem P st (name, w) =
       st\<lparr>buffer := [], isWanted := w,
          tempFlagMask := tempFlagMask st OR stateValue P s,
          tempFlags := (if w then tempFlags st OR stateValue P s else tempFlags st)\<rparr>"
  by (simp add: applyItem_def classifyItem_def)

lemma or_and_self: "((a :: 32 word) OR x) AND x = x"
  by (simp add: word_ao_absorbs)

lemma separator_modifier_exact:
  assumes "\<not> isLetterOrNumber c" and "parseAsModifier name = Some m"
  shows "decodeSequence P (c # name) k mo mm fl fm =
           \<lparr>returned = True,
            keyCodeOut = (case parseAsKeyCode P [c] of None \<Rightarrow> k | Some x \<Rightarrow> x),
            modifiersOut = (if c = CHR ''-'' then mo else mo OR modifierValue P m),
            modifierMaskOut = mm OR modifierValue P m, flagsOut = fl, flagMaskOut = fm\<rparr>"
proof -
  have n: "name \<noteq> []" "list_all isLetterOrNumber name"
    using modifier_name_letters [OF assms(2)] by simp_all
  have items: "decodeItems True (c # name) [] True = [([c], True), (name, c \<noteq> CHR ''-'')]"
    using decodeItems_name_after_separator [OF assms(1) n, of "[]"] by simp
  show ?thesis
    unfolding decodeSequence_accs items
    by (simp add: Let_def applyItem_separator applyItem_modifier [OF assms(2)] split: option.splits)
qed

lemma separator_flag_exact:
  assumes "\<not> isLetterOrNumber c" and "parseAsStateFlag name = Some s"
  shows "decodeSequence P (c # name) k mo mm fl fm =
           \<lparr>returned = True,
            keyCodeOut = (case parseAsKeyCode P [c] of None \<Rightarrow> k | Some x \<Rightarrow> x),
            modifiersOut = mo, modifierMaskOut = mm,
            flagsOut = (if c = CHR ''-'' then fl else fl OR stateValue P s),
            flagMaskOut = fm OR stateValue P s\<rparr>"
proof -
  have n: "name \<noteq> []" "list_all isLetterOrNumber name" and nm: "parseAsModifier name = None"
    using flag_name_letters [OF assms(2)] by simp_all
  have items: "decodeItems True (c # name) [] True = [([c], True), (name, c \<noteq> CHR ''-'')]"
    using decodeItems_name_after_separator [OF assms(1) n, of "[]"] by simp
  show ?thesis
    unfolding decodeSequence_accs items
    by (simp add: Let_def applyItem_separator applyItem_flag [OF nm assms(2)] split: option.splits)
qed

lemma separator_modifier_bits:
  assumes "\<not> isLetterOrNumber c" and "parseAsModifier name = Some m"
    and "after = [] \<or> \<not> isLetterOrNumber (hd after)"
  shows "modifierMaskOut (decodeSequence P (c # name @ after) k mo mm fl fm)
           AND modifierValue P m = modifierValue P m"
    and "c \<noteq> CHR ''-'' \<Longrightarrow>
         modifiersOut (decodeSequence P (c # name @ after) k mo mm fl fm)
           AND modifierValue P m = modifierValue P m"
proof -
  have n: "name \<noteq> []" "list_all isLetterOrNumber name"
    using modifier_name_letters [OF assms(2)] by simp_all
  let ?st0 = "\<lparr>buffer = [], isWanted = True, keyCodeRef = k, tempModifiers = mo,
                  tempModifierMask = mm, tempFlags = fl, tempFlagMask = fm\<rparr>"
  let ?st2 = "applyItem P (applyItem P ?st0 ([c], True)) (name, c \<noteq> CHR ''-'')"
  obtain more where items:
    "decodeItems True (c # name @ after) [] True = ([c], True) # (name, c \<noteq> CHR ''-'') # more"
    using decodeItems_name_after_separator [OF assms(1) n assms(3)] by blast
  have "tempModifierMask ?st2 AND modifierValue P m = modifierValue P m"
    by (simp add: applyItem_separator applyItem_modifier [OF assms(2)] or_and_self)
  then have "tempModifierMask (foldl (applyItem P) ?st2 more) AND modifierValue P m
      = modifierValue P m"
    by (rule tempModifierMask_foldl_keeps)
  then show "modifierMaskOut (decodeSequence P (c # name @ after) k mo mm fl fm)
           AND modifierValue P m = modifierValue P m"
    unfolding decodeSequence_accs items by (simp add: Let_def)
  assume "c \<noteq> CHR ''-''"
  then have "tempModifiers ?st2 AND modifierValue P m = modifierValue P m"
    by (simp add: applyItem_separator applyItem_modifier [OF assms(2)] or_and_self)
  then have "tempModifiers (foldl (applyItem P) ?st2 more) AND modifierValue P m
      = modifierValue P m"
    by (rule tempModifiers_foldl_keeps)
  then show "modifiersOut (decodeSequence P (c # name @ after) k mo mm fl fm)
           AND modifierValue P m = modifierValue P m"
    unfolding decodeSequence_accs items by (simp add: Let_def)
qed

lemma separator_flag_bits:
  assumes "\<not> isLetterOrNumber c" and "parseAsStateFlag name = Some s"
    and "after = [] \<or> \<not> isLetterOrNumber (hd after)"
  shows "flagMaskOut (decodeSequence P (c # name @ after) k mo mm fl fm)
           AND stateValue P s = stateValue P s"
    and "c \<noteq> CHR ''-'' \<Longrightarrow>
         flagsOut (decodeSequence P (c # name @ after) k mo mm fl fm)
           AND stateValue P s = stateValue P s"
proof -
  have n: "name \<noteq> []" "list_all isLetterOrNumber name" and nm: "parseAsModifier name = None"
    using flag_name_letters [OF assms(2)] by simp_all
  let ?st0 = "\<lparr>buffer = [], isWanted = True, keyCodeRef = k, tempModifiers = mo,
                  tempModifierMask = mm, tempFlags = fl, tempFlagMask = fm\<rparr>"
  let ?st2 = "applyItem P (applyItem P ?st0 ([c], True)) (name, c \<noteq> CHR ''-'')"
  obtain more where items:
    "decodeItems True (c # name @ after) [] True = ([c], True) # (name, c \<noteq> CHR ''-'') # more"
    using decodeItems_name_after_separator [OF assms(1) n assms(3)] by blast
  have "tempFlagMask ?st2 AND stateValue P s = stateValue P s"
    by (simp add: applyItem_separator applyItem_flag [OF nm assms(2)] or_and_self)
  then have "tempFlagMask (foldl (applyItem P) ?st2 more) AND stateValue P s = stateValue P s"
    by (rule tempFlagMask_foldl_keeps)
  then show "flagMaskOut (decodeSequence P (c # name @ after) k mo mm fl fm)
           AND stateValue P s = stateValue P s"
    unfolding decodeSequence_accs items by (simp add: Let_def)
  assume "c \<noteq> CHR ''-''"
  then have "tempFlags ?st2 AND stateValue P s = stateValue P s"
    by (simp add: applyItem_separator applyItem_flag [OF nm assms(2)] or_and_self)
  then have "tempFlags (foldl (applyItem P) ?st2 more) AND stateValue P s = stateValue P s"
    by (rule tempFlags_foldl_keeps)
  then show "flagsOut (decodeSequence P (c # name @ after) k mo mm fl fm)
           AND stateValue P s = stateValue P s"
    unfolding decodeSequence_accs items by (simp add: Let_def)
qed

lemma separator_name_items:
  assumes "\<not> isLetterOrNumber c"
    and "parseAsModifier name \<noteq> None \<or> parseAsStateFlag name \<noteq> None"
    and "after = [] \<or> \<not> isLetterOrNumber (hd after)"
  shows "take 2 (decodeItems True (c # name @ after) [] True) =
           [([c], True), (name, c \<noteq> CHR ''-'')]"
proof -
  have n: "name \<noteq> []" "list_all isLetterOrNumber name"
    using assms(2) modifier_name_letters [of name] flag_name_letters [of name] by auto
  show ?thesis
    unfolding decodeItems_name_after_separator [OF assms(1) n assms(3)] by simp
qed

text \<open>
  Claim C1, as amended. With a key-name table that knows \<open>home\<close>, decoding
  \<open>home-anymod-appcukeys\<close> from empty flag sets returns the key code of \<open>home\<close>, a
  state mask of exactly the AnyModifier and the CursorKeys bit, and an empty state value
  (both flags follow a \<open>-\<close>); no modifier is touched. For every sequence, the first
  buffer the loop classifies is classified as wanted, so a sequence that starts with the
  name of a modifier or of a state flag has that bit set in the value. A leading separator
  (any character that is not a letter or a digit) does not leave it so for the name that
  follows: the separator is itself appended to the buffer and is that first buffer, and
  the name after it is classified with the polarity the separator sets, not wanted after a
  leading \<open>-\<close> and wanted after any other. So decoding a separator and the name of a
  modifier (of a state flag) adds that bit to the mask, and to the value unless the
  separator is \<open>-\<close>; with more items after the name the mask keeps the bit, and the
  value has it when the separator is not \<open>-\<close>.
\<close>

theorem decode_home_anymod_appcukeys:
  assumes "fromString P ''home'' = home # others"
  shows "decodeSequence P ''home-anymod-appcukeys'' k 0 0 0 0 =
           \<lparr>returned = True, keyCodeOut = home, modifiersOut = 0, modifierMaskOut = 0,
            flagsOut = 0,
            flagMaskOut = stateValue P AnyModifierState OR stateValue P CursorKeysState\<rparr>
       \<and> (\<forall>cs item wanted rest. decodeItems True cs [] True = (item, wanted) # rest \<longrightarrow>
             wanted
             \<and> (\<forall>m. parseAsModifier item = Some m \<longrightarrow>
                   modifiersOut (decodeSequence P cs k 0 0 0 0) AND modifierValue P m
                     = modifierValue P m)
             \<and> (\<forall>s. parseAsModifier item = None \<and> parseAsStateFlag item = Some s \<longrightarrow>
                   flagsOut (decodeSequence P cs k 0 0 0 0) AND stateValue P s
                     = stateValue P s))
       \<and> (\<forall>c name after.
             \<not> isLetterOrNumber c
             \<and> (parseAsModifier name \<noteq> None \<or> parseAsStateFlag name \<noteq> None)
             \<and> (after = [] \<or> \<not> isLetterOrNumber (hd after)) \<longrightarrow>
             take 2 (decodeItems True (c # name @ after) [] True) =
               [([c], True), (name, c \<noteq> CHR ''-'')])
       \<and> (\<forall>c name m.
             \<not> isLetterOrNumber c \<and> parseAsModifier name = Some m \<longrightarrow>
             decodeSequence P (c # name) k mo mm fl fm =
               \<lparr>returned = True,
                keyCodeOut = (case parseAsKeyCode P [c] of None \<Rightarrow> k | Some x \<Rightarrow> x),
                modifiersOut = (if c = CHR ''-'' then mo else mo OR modifierValue P m),
                modifierMaskOut = mm OR modifierValue P m, flagsOut = fl, flagMaskOut = fm\<rparr>)
       \<and> (\<forall>c name s.
             \<not> isLetterOrNumber c \<and> parseAsStateFlag name = Some s \<longrightarrow>
             decodeSequence P (c # name) k mo mm fl fm =
               \<lparr>returned = True,
                keyCodeOut = (case parseAsKeyCode P [c] of None \<Rightarrow> k | Some x \<Rightarrow> x),
                modifiersOut = mo, modifierMaskOut = mm,
                flagsOut = (if c = CHR ''-'' then fl else fl OR stateValue P s),
                flagMaskOut = fm OR stateValue P s\<rparr>)
       \<and> (\<forall>c name after m.
             \<not> isLetterOrNumber c \<and> parseAsModifier name = Some m
             \<and> (after = [] \<or> \<not> isLetterOrNumber (hd after)) \<longrightarrow>
             modifierMaskOut (decodeSequence P (c # name @ after) k mo mm fl fm)
                 AND modifierValue P m = modifierValue P m
             \<and> (c \<noteq> CHR ''-'' \<longrightarrow>
                  modifiersOut (decodeSequence P (c # name @ after) k mo mm fl fm)
                    AND modifierValue P m = modifierValue P m))
       \<and> (\<forall>c name after s.
             \<not> isLetterOrNumber c \<and> parseAsStateFlag name = Some s
             \<and> (after = [] \<or> \<not> isLetterOrNumber (hd after)) \<longrightarrow>
             flagMaskOut (decodeSequence P (c # name @ after) k mo mm fl fm)
                 AND stateValue P s = stateValue P s
             \<and> (c \<noteq> CHR ''-'' \<longrightarrow>
                  flagsOut (decodeSequence P (c # name @ after) k mo mm fl fm)
                    AND stateValue P s = stateValue P s))"
proof (intro conjI allI impI; (elim conjE)?)
  show "decodeSequence P ''home-anymod-appcukeys'' k 0 0 0 0 =
           \<lparr>returned = True, keyCodeOut = home, modifiersOut = 0, modifierMaskOut = 0,
            flagsOut = 0,
            flagMaskOut = stateValue P AnyModifierState OR stateValue P CursorKeysState\<rparr>"
    using assms by (rule home_concrete)
next
  fix cs item wanted rest
  assume "decodeItems True cs [] True = (item, wanted) # rest"
  then show wanted using first_item_wanted [of True "[]" cs item wanted rest] by simp
next
  fix cs item wanted rest m
  assume "decodeItems True cs [] True = (item, wanted) # rest" "parseAsModifier item = Some m"
  then show "modifiersOut (decodeSequence P cs k 0 0 0 0) AND modifierValue P m = modifierValue P m"
    by (rule first_item_modifier)
next
  fix cs item wanted rest s
  assume "decodeItems True cs [] True = (item, wanted) # rest"
    "parseAsModifier item = None" "parseAsStateFlag item = Some s"
  then show "flagsOut (decodeSequence P cs k 0 0 0 0) AND stateValue P s = stateValue P s"
    by (rule first_item_flag)
next
  fix c name after
  assume "\<not> isLetterOrNumber c"
    "parseAsModifier name \<noteq> None \<or> parseAsStateFlag name \<noteq> None"
    "after = [] \<or> \<not> isLetterOrNumber (hd after)"
  then show "take 2 (decodeItems True (c # name @ after) [] True) =
               [([c], True), (name, c \<noteq> CHR ''-'')]"
    by (rule separator_name_items)
next
  fix c name m
  assume "\<not> isLetterOrNumber c" "parseAsModifier name = Some m"
  then show "decodeSequence P (c # name) k mo mm fl fm =
               \<lparr>returned = True,
                keyCodeOut = (case parseAsKeyCode P [c] of None \<Rightarrow> k | Some x \<Rightarrow> x),
                modifiersOut = (if c = CHR ''-'' then mo else mo OR modifierValue P m),
                modifierMaskOut = mm OR modifierValue P m, flagsOut = fl, flagMaskOut = fm\<rparr>"
    by (rule separator_modifier_exact)
next
  fix c name s
  assume "\<not> isLetterOrNumber c" "parseAsStateFlag name = Some s"
  then show "decodeSequence P (c # name) k mo mm fl fm =
               \<lparr>returned = True,
                keyCodeOut = (case parseAsKeyCode P [c] of None \<Rightarrow> k | Some x \<Rightarrow> x),
                modifiersOut = mo, modifierMaskOut = mm,
                flagsOut = (if c = CHR ''-'' then fl else fl OR stateValue P s),
                flagMaskOut = fm OR stateValue P s\<rparr>"
    by (rule separator_flag_exact)
next
  fix c name after m
  assume "\<not> isLetterOrNumber c" "parseAsModifier name = Some m"
    "after = [] \<or> \<not> isLetterOrNumber (hd after)"
  then show "modifierMaskOut (decodeSequence P (c # name @ after) k mo mm fl fm)
                 AND modifierValue P m = modifierValue P m"
    by (rule separator_modifier_bits(1))
next
  fix c name after m
  assume "\<not> isLetterOrNumber c" "parseAsModifier name = Some m"
    "after = [] \<or> \<not> isLetterOrNumber (hd after)" "c \<noteq> CHR ''-''"
  then show "modifiersOut (decodeSequence P (c # name @ after) k mo mm fl fm)
                    AND modifierValue P m = modifierValue P m"
    by (rule separator_modifier_bits(2))
next
  fix c name after s
  assume "\<not> isLetterOrNumber c" "parseAsStateFlag name = Some s"
    "after = [] \<or> \<not> isLetterOrNumber (hd after)"
  then show "flagMaskOut (decodeSequence P (c # name @ after) k mo mm fl fm)
                 AND stateValue P s = stateValue P s"
    by (rule separator_flag_bits(1))
next
  fix c name after s
  assume "\<not> isLetterOrNumber c" "parseAsStateFlag name = Some s"
    "after = [] \<or> \<not> isLetterOrNumber (hd after)" "c \<noteq> CHR ''-''"
  then show "flagsOut (decodeSequence P (c # name @ after) k mo mm fl fm)
                    AND stateValue P s = stateValue P s"
    by (rule separator_flag_bits(2))
qed


theorem decode_home_anymod_appcukeys_witness:
  "fromString samplePlatform ''home'' = [0x01000010]
   \<and> decodeSequence samplePlatform ''home-anymod-appcukeys'' 0 0 0 0 0 =
        \<lparr>returned = True, keyCodeOut = 0x01000010, modifiersOut = 0, modifierMaskOut = 0,
         flagsOut = 0, flagMaskOut = 20\<rparr>
   \<and> decodeItems True ''shift-ctrl'' [] True = [(''shift'', True), (''ctrl'', False)]
   \<and> modifiersOut (decodeSequence samplePlatform ''shift-ctrl'' 0 0 0 0 0) AND 0x02000000
        = 0x02000000
   \<and> \<not> isLetterOrNumber CHR ''-'' \<and> \<not> isLetterOrNumber CHR ''+''
   \<and> parseAsModifier ''shift'' = Some ShiftModifier
   \<and> parseAsStateFlag ''ansi'' = Some AnsiState
   \<and> take 2 (decodeItems True ''-shift+home'' [] True) = [(''-'', True), (''shift'', False)]
   \<and> decodeSequence samplePlatform ''-shift'' 0 0 0 0 0 =
        \<lparr>returned = True, keyCodeOut = 0, modifiersOut = 0, modifierMaskOut = 0x02000000,
         flagsOut = 0, flagMaskOut = 0\<rparr>
   \<and> decodeSequence samplePlatform ''+ansi'' 0 0 0 0 0 =
        \<lparr>returned = True, keyCodeOut = 0, modifiersOut = 0, modifierMaskOut = 0,
         flagsOut = 2, flagMaskOut = 2\<rparr>
   \<and> modifierMaskOut (decodeSequence samplePlatform ''-shift+home'' 0 0 0 0 0) AND 0x02000000
        = 0x02000000
   \<and> flagsOut (decodeSequence samplePlatform ''+ansi-shift'' 0 0 0 0 0) AND 2 = 2"
proof -
  note inst = decode_home_anymod_appcukeys [OF sample_home, of 0 0 0 0 0]
  note first = inst [THEN conjunct2, THEN conjunct1]
  note shape = inst [THEN conjunct2, THEN conjunct2, THEN conjunct1]
  note mexact = inst [THEN conjunct2, THEN conjunct2, THEN conjunct2, THEN conjunct1]
  note fexact = inst [THEN conjunct2, THEN conjunct2, THEN conjunct2, THEN conjunct2,
      THEN conjunct1]
  note mbits = inst [THEN conjunct2, THEN conjunct2, THEN conjunct2, THEN conjunct2,
      THEN conjunct2, THEN conjunct1]
  note fbits = inst [THEN conjunct2, THEN conjunct2, THEN conjunct2, THEN conjunct2,
      THEN conjunct2, THEN conjunct2]
  have minus: "\<not> isLetterOrNumber CHR ''-''" and plus: "\<not> isLetterOrNumber CHR ''+''"
    by code_simp+
  have shift: "parseAsModifier ''shift'' = Some ShiftModifier"
    by (simp add: parseAsModifier_def)
  have ansi: "parseAsStateFlag ''ansi'' = Some AnsiState"
    by (simp add: parseAsStateFlag_def)
  have nokey: "parseAsKeyCode samplePlatform ''-'' = None"
    "parseAsKeyCode samplePlatform ''+'' = None"
    by code_simp+
  have vals: "modifierValue samplePlatform ShiftModifier = 0x02000000"
    "stateValue samplePlatform AnsiState = 2"
    by (simp_all add: samplePlatform_def)
  have a: "decodeSequence samplePlatform ''home-anymod-appcukeys'' 0 0 0 0 0 =
        \<lparr>returned = True, keyCodeOut = 0x01000010, modifiersOut = 0, modifierMaskOut = 0,
         flagsOut = 0, flagMaskOut = 20\<rparr>"
    using inst [THEN conjunct1] by (simp add: samplePlatform_def)
  have items: "decodeItems True ''shift-ctrl'' [] True = [(''shift'', True), (''ctrl'', False)]"
    by code_simp
  have b: "modifiersOut (decodeSequence samplePlatform ''shift-ctrl'' 0 0 0 0 0)
      AND 0x02000000 = 0x02000000"
    using first [rule_format, OF items, THEN conjunct2, THEN conjunct1, rule_format, OF shift]
    unfolding vals .
  have hs: "\<not> isLetterOrNumber CHR ''-''
      \<and> (parseAsModifier ''shift'' \<noteq> None \<or> parseAsStateFlag ''shift'' \<noteq> None)
      \<and> (''+home'' = [] \<or> \<not> isLetterOrNumber (hd ''+home''))"
    using minus plus shift by simp
  have c: "take 2 (decodeItems True ''-shift+home'' [] True) =
      [(''-'', True), (''shift'', False)]"
    using shape [rule_format, OF hs] by (simp only: append.simps simp_thms)
  have d: "decodeSequence samplePlatform ''-shift'' 0 0 0 0 0 =
        \<lparr>returned = True, keyCodeOut = 0, modifiersOut = 0, modifierMaskOut = 0x02000000,
         flagsOut = 0, flagMaskOut = 0\<rparr>"
    using mexact [rule_format, OF conjI [OF minus shift]] unfolding nokey vals by simp
  have e: "decodeSequence samplePlatform ''+ansi'' 0 0 0 0 0 =
        \<lparr>returned = True, keyCodeOut = 0, modifiersOut = 0, modifierMaskOut = 0,
         flagsOut = 2, flagMaskOut = 2\<rparr>"
    using fexact [rule_format, OF conjI [OF plus ansi]] unfolding nokey vals by simp
  have hm: "\<not> isLetterOrNumber CHR ''-'' \<and> parseAsModifier ''shift'' = Some ShiftModifier
      \<and> (''+home'' = [] \<or> \<not> isLetterOrNumber (hd ''+home''))"
    using minus plus shift by simp
  have f: "modifierMaskOut (decodeSequence samplePlatform ''-shift+home'' 0 0 0 0 0)
      AND 0x02000000 = 0x02000000"
    using mbits [rule_format, OF hm, THEN conjunct1] unfolding vals by simp
  have hf: "\<not> isLetterOrNumber CHR ''+'' \<and> parseAsStateFlag ''ansi'' = Some AnsiState
      \<and> (''-shift'' = [] \<or> \<not> isLetterOrNumber (hd ''-shift''))"
    using minus plus ansi by simp
  have pm: "CHR ''+'' \<noteq> CHR ''-''" by simp
  have g: "flagsOut (decodeSequence samplePlatform ''+ansi-shift'' 0 0 0 0 0) AND 2 = 2"
    using fbits [rule_format, OF hf, THEN conjunct2, rule_format, OF pm] unfolding vals
    by simp
  show ?thesis by (intro conjI) (rule sample_home a items b minus plus shift ansi c d e f g)+
qed

text \<open>
  The claim as it stands fails on a sequence with a leading \<open>-\<close>: the first name is
  classified as not wanted, so its bit goes to the mask and not to the value, where a
  leading \<open>+\<close> sets both.
\<close>

theorem first_item_after_leading_minus_counterexample:
  "decodeItems True ''-shift'' [] True = [(''-'', True), (''shift'', False)]
   \<and> decodeSequence samplePlatform ''-shift'' 0 0 0 0 0 =
        \<lparr>returned = True, keyCodeOut = 0, modifiersOut = 0, modifierMaskOut = 0x02000000,
         flagsOut = 0, flagMaskOut = 0\<rparr>
   \<and> decodeSequence samplePlatform ''+shift'' 0 0 0 0 0 =
        \<lparr>returned = True, keyCodeOut = 0, modifiersOut = 0x02000000,
         modifierMaskOut = 0x02000000, flagsOut = 0, flagMaskOut = 0\<rparr>
   \<and> decodeSequence samplePlatform ''-ansi+home'' 0 0 0 0 0 =
        \<lparr>returned = True, keyCodeOut = 0x01000010, modifiersOut = 0, modifierMaskOut = 0,
         flagsOut = 0, flagMaskOut = 2\<rparr>"
  by code_simp

text \<open>
  Claim C8. \<open>decodeSequence\<close> always returns \<open>true\<close>, and the key code it leaves is
  the key code of the last item that classifies as a key name; with no such item it is the
  key code the caller passed in. A second key name is therefore not an error: it
  overwrites the first.
\<close>

theorem last_key_name_wins:
  "returned (decodeSequence P cs k m mm f fm)
   \<and> keyCodeOut (decodeSequence P cs k m mm f fm) =
       last (k # List.map_filter (itemKeyCode P) (map fst (decodeItems True cs [] True)))"
  by (simp add: decodeSequence_accs Let_def keyCodeRef_foldl)

theorem last_key_name_wins_witness:
  "List.map_filter (itemKeyCode samplePlatform) (map fst (decodeItems True ''home+up'' [] True))
     = [0x01000010, 0x01000013]
   \<and> returned (decodeSequence samplePlatform ''home+up'' 0 0 0 0 0)
   \<and> keyCodeOut (decodeSequence samplePlatform ''home+up'' 0 0 0 0 0) = 0x01000013"
proof -
  have keys: "List.map_filter (itemKeyCode samplePlatform)
      (map fst (decodeItems True ''home+up'' [] True)) = [0x01000010, 0x01000013]"
    by code_simp
  show ?thesis
    using last_key_name_wins [of samplePlatform "''home+up''" 0 0 0 0 0]
    unfolding keys by simp
qed

text \<open>
  Claim C9. Every entry a caller takes from a reader, over any input, has every bit of
  its modifier value inside its modifier mask and every bit of its state value inside its
  state mask: \<open>readNext\<close> decodes each sequence from empty flag sets, and the loop sets a
  value bit only together with its mask bit.
\<close>

theorem reader_entries_mask_covers_value:
  "\<forall>e \<in> set (allEntries P (KeyboardTranslatorReader P src)).
     modifiers e AND modifierMask e = modifiers e \<and> state e AND stateMask e = state e"
proof
  fix e
  assume e: "e \<in> set (allEntries P (KeyboardTranslatorReader P src))"
  have "entryMaskCovers e"
  proof (rule allEntries_maskCovers [OF _ e])
    assume "r_hasNext (KeyboardTranslatorReader P src)"
    then show "entryMaskCovers (r_nextEntry (KeyboardTranslatorReader P src))"
      unfolding KeyboardTranslatorReader_def by (rule readNext_maskCovers)
  qed
  then show "modifiers e AND modifierMask e = modifiers e \<and> state e AND stateMask e = state e"
    by (simp add: entryMaskCovers_def)
qed

theorem reader_entries_mask_covers_value_witness:
  "allEntries samplePlatform (KeyboardTranslatorReader samplePlatform
      (''keyboard t'' @ [CHR 0x0A] @ ''key Up+Shift-Ctrl+AnyMod : scrollLineUp'' @ [CHR 0x0A])) =
     [\<lparr>keyCode = 0x01000013, modifiers = 0x02000000, modifierMask = 0x06000000, state = 16,
       stateMask = 16, command = ScrollLineUpCommand, entryText = []\<rparr>]
   \<and> (0x02000000 :: 32 word) AND 0x06000000 = 0x02000000
   \<and> (16 :: 32 word) AND 16 = 16"
proof -
  let ?src = "''keyboard t'' @ [CHR 0x0A] @ ''key Up+Shift-Ctrl+AnyMod : scrollLineUp'' @ [CHR 0x0A]"
  let ?e = "\<lparr>keyCode = 0x01000013, modifiers = 0x02000000, modifierMask = 0x06000000,
       state = 16, stateMask = 16, command = ScrollLineUpCommand, entryText = []\<rparr>"
  have ev: "allEntries samplePlatform (KeyboardTranslatorReader samplePlatform ?src) = [?e]"
    by code_simp
  have "modifiers ?e AND modifierMask ?e = modifiers ?e \<and> state ?e AND stateMask ?e = state ?e"
    using reader_entries_mask_covers_value [of samplePlatform ?src] unfolding ev
    by simp
  then show ?thesis using ev by simp
qed

section \<open>The key-line grammar\<close>

text \<open>
  The language of a pattern: the strings it matches from their first to their last
  character, whatever the order in which backtracking finds them. \<open>matchAt\<close> finds
  exactly the prefixes of the subject that belong to the language (\<open>matchAt_rests\<close>),
  so the unanchored search fails exactly when no part of the subject does.
\<close>

fun lang :: "Regex \<Rightarrow> string set" where
  "lang (Lit w) = {w}"
| "lang (Rep g n cls) = {v. n \<le> length v \<and> list_all (classMatches cls) v}"
| "lang (Seq a b) = {u @ v | u v. u \<in> lang a \<and> v \<in> lang b}"
| "lang (Alt a b) = lang a \<union> lang b"
| "lang (Group i a) = lang a"

lemma takeWhile_length_prefix:
  "(j \<le> length (takeWhile p s)) = (j \<le> length s \<and> list_all p (take j s))"
proof (induction s arbitrary: j)
  case Nil
  then show ?case by simp
next
  case (Cons a s)
  then show ?case by (cases j) auto
qed

lemma matchAt_Rep_rests:
  "fst ` set (matchAt (Rep g n cls) s c) =
     {rest. \<exists>v. (n \<le> length v \<and> list_all (classMatches cls) v) \<and> s = v @ rest}"
proof -
  let ?k = "length (takeWhile (classMatches cls) s)"
  have "fst ` set (matchAt (Rep g n cls) s c) = (\<lambda>j. drop j s) ` {n ..< Suc ?k}"
    by (auto simp: Let_def image_image)
  also have "\<dots> = {rest. \<exists>v. (n \<le> length v \<and> list_all (classMatches cls) v) \<and> s = v @ rest}"
  proof (intro set_eqI iffI)
    fix rest
    assume "rest \<in> (\<lambda>j. drop j s) ` {n ..< Suc ?k}"
    then obtain j where j: "n \<le> j" "j \<le> ?k" and r: "rest = drop j s" by auto
    have "j \<le> length s \<and> list_all (classMatches cls) (take j s)"
      using j(2) by (simp add: takeWhile_length_prefix)
    then have "(n \<le> length (take j s) \<and> list_all (classMatches cls) (take j s)) \<and> s = take j s @ rest"
      using j(1) r by simp
    then show "rest \<in> {rest. \<exists>v. (n \<le> length v \<and> list_all (classMatches cls) v) \<and> s = v @ rest}"
      by blast
  next
    fix rest
    assume "rest \<in> {rest. \<exists>v. (n \<le> length v \<and> list_all (classMatches cls) v) \<and> s = v @ rest}"
    then obtain v where v: "n \<le> length v" "list_all (classMatches cls) v" "s = v @ rest" by blast
    have "length v \<le> ?k"
      using v(2,3) by (simp add: takeWhile_length_prefix)
    then show "rest \<in> (\<lambda>j. drop j s) ` {n ..< Suc ?k}"
      using v(1,3) by (intro image_eqI [where x = "length v"]) auto
  qed
  finally show ?thesis .
qed

lemma matchAt_rests:
  "fst ` set (matchAt r s c) = {rest. \<exists>v. v \<in> lang r \<and> s = v @ rest}"
proof (induction r arbitrary: s c)
  case (Lit w)
  show ?case
  proof (cases "take (length w) s = w")
    case True
    then have "s = w @ drop (length w) s" by (metis append_take_drop_id)
    then show ?thesis using True by auto
  next
    case False
    then show ?thesis by auto
  qed
next
  case (Rep g n cls)
  show ?case using matchAt_Rep_rests [of g n cls s c] by simp
next
  case (Seq a b)
  have "fst ` set (matchAt (Seq a b) s c) =
      (\<Union>m \<in> set (matchAt a s c). fst ` set (matchAt b (fst m) (snd m)))"
    by (auto simp: case_prod_beta image_UN)
  also have "\<dots> = (\<Union>m \<in> set (matchAt a s c). {rest. \<exists>v. v \<in> lang b \<and> fst m = v @ rest})"
    by (simp add: Seq.IH(2))
  also have "\<dots> = (\<Union>s1 \<in> fst ` set (matchAt a s c). {rest. \<exists>v. v \<in> lang b \<and> s1 = v @ rest})"
    by (simp add: image_def) blast
  also have "\<dots> = (\<Union>s1 \<in> {rest. \<exists>u. u \<in> lang a \<and> s = u @ rest}.
        {rest. \<exists>v. v \<in> lang b \<and> s1 = v @ rest})"
    by (simp only: Seq.IH(1))
  also have "\<dots> = {rest. \<exists>v. v \<in> lang (Seq a b) \<and> s = v @ rest}"
    by auto (metis append.assoc)+
  finally show ?case .
next
  case (Alt a b)
  show ?case by (auto simp: image_Un Alt.IH)
next
  case (Group i a)
  have "fst ` set (matchAt (Group i a) s c) = fst ` set (matchAt a s c)"
    by (auto simp: image_image case_prod_beta intro: rev_image_eqI)
  then show ?case by (simp add: Group.IH)
qed

lemma matchAt_nonempty_iff:
  "(matchAt r s c \<noteq> []) = (\<exists>v rest. v \<in> lang r \<and> s = v @ rest)"
proof -
  have "(matchAt r s c \<noteq> []) = (fst ` set (matchAt r s c) \<noteq> {})" by simp
  also have "\<dots> = (\<exists>v rest. v \<in> lang r \<and> s = v @ rest)"
    unfolding matchAt_rests by blast
  finally show ?thesis .
qed

lemma search_None_iff:
  "(search r s = None) = (\<forall>u t. s = u @ t \<longrightarrow> matchAt r t (\<lambda>_. None) = [])"
proof (induction s)
  case Nil
  then show ?case by (simp split: list.splits)
next
  case (Cons a s)
  have "(\<forall>u t. a # s = u @ t \<longrightarrow> matchAt r t (\<lambda>_. None) = []) =
      (matchAt r (a # s) (\<lambda>_. None) = [] \<and> (\<forall>u t. s = u @ t \<longrightarrow> matchAt r t (\<lambda>_. None) = []))"
    by (auto simp: Cons_eq_append_conv)
  then show ?case using Cons.IH by (simp split: list.splits)
qed

lemma search_None_lang:
  "(search r s = None) = (\<forall>u v w. s = u @ v @ w \<longrightarrow> v \<notin> lang r)"
  unfolding search_None_iff
  using matchAt_nonempty_iff [of r _ "\<lambda>_. None"] by (metis)

lemma lang_fullMatch:
  "(s \<in> lang r) = ([] \<in> fst ` set (matchAt r s c))"
  unfolding matchAt_rests by simp

lemma tokenize_key_branch:
  assumes "simplified (stripComments line) = t" and "t \<noteq> []" and "\<not> startsWith t ''keyboard''"
  shows "tokenize line =
     (case search keyRegex t of
        None \<Rightarrow> []
      | Some keyMatch \<Rightarrow>
          [\<lparr>tokenType = KeyKeyword, tokenText = []\<rparr>,
           \<lparr>tokenType = KeySequence, tokenText = filter (\<lambda>c. c \<noteq> CHR '' '') (captured keyMatch 1)\<rparr>,
           (if captured keyMatch 3 \<noteq> []
            then \<lparr>tokenType = OutputText, tokenText = captured keyMatch 3\<rparr>
            else \<lparr>tokenType = Command, tokenText = captured keyMatch 2\<rparr>)])"
  using assms by (simp add: tokenize_def Let_def split: option.splits)

text \<open>
  Claim C4, as amended. For a line that is neither empty after simplification nor a title
  line, \<open>tokenize\<close> searches the simplified text for the key-line grammar: the match
  may start at any offset and need not reach the end of the text. It returns no tokens
  exactly when no contiguous part of the simplified text belongs to the grammar; otherwise
  it returns three tokens, the first the key keyword.
\<close>

theorem key_line_match_is_a_search:
  assumes "simplified (stripComments line) = t" and "t \<noteq> []" and "\<not> startsWith t ''keyboard''"
  shows "(tokenize line = []) = (\<forall>u v w. t = u @ v @ w \<longrightarrow> v \<notin> lang keyRegex)
       \<and> (tokenize line \<noteq> [] \<longrightarrow>
            length (tokenize line) = 3 \<and> tokenType (hd (tokenize line)) = KeyKeyword)"
  unfolding tokenize_key_branch [OF assms] search_None_lang [symmetric]
  by (simp split: option.splits)

text \<open>
  The rests of the subject after each way of matching the pattern at offset 0 of
  \<open>key a : b c\<close>: none is empty, so the whole text does not belong to the grammar.
\<close>

lemma ce_rests: "map fst (matchAt keyRegex ''key a : b c'' (\<lambda>_. None)) = ['' c'', '' c'']"
  by code_simp

lemma ce_tok: "tokenize ''key a : b c'' =
    [\<lparr>tokenType = KeyKeyword, tokenText = []\<rparr>,
     \<lparr>tokenType = KeySequence, tokenText = ''a''\<rparr>,
     \<lparr>tokenType = Command, tokenText = ''b''\<rparr>]"
  by code_simp

lemma ce_text: "simplified (stripComments ''key a : b c'') = ''key a : b c''"
  by code_simp

text \<open>
  The claim as it stands fails on a key line with text after the command: the whole
  simplified text does not match the grammar, and three tokens are returned.
\<close>

theorem key_line_whole_text_counterexample:
  "simplified (stripComments ''key a : b c'') = ''key a : b c''
   \<and> \<not> startsWith ''key a : b c'' ''keyboard''
   \<and> ''key a : b c'' \<notin> lang keyRegex
   \<and> tokenize ''key a : b c'' =
       [\<lparr>tokenType = KeyKeyword, tokenText = []\<rparr>,
        \<lparr>tokenType = KeySequence, tokenText = ''a''\<rparr>,
        \<lparr>tokenType = Command, tokenText = ''b''\<rparr>]"
proof -
  have "set (map fst (matchAt keyRegex ''key a : b c'' (\<lambda>_. None))) = {'' c''}"
    unfolding ce_rests by simp
  then have "''key a : b c'' \<notin> lang keyRegex"
    unfolding lang_fullMatch [of _ _ "\<lambda>_. None"] by simp
  moreover have "\<not> startsWith ''key a : b c'' ''keyboard''"
    by (simp add: startsWith_def)
  ultimately show ?thesis using ce_text ce_tok by blast
qed

theorem key_line_match_is_a_search_witness:
  "simplified (stripComments ''key a : b c'') = ''key a : b c''
   \<and> ''key a : b c'' \<noteq> []
   \<and> \<not> startsWith ''key a : b c'' ''keyboard''
   \<and> length (tokenize ''key a : b c'') = 3
   \<and> tokenType (hd (tokenize ''key a : b c'')) = KeyKeyword
   \<and> \<not> (\<forall>u v w. ''key a : b c'' = u @ v @ w \<longrightarrow> v \<notin> lang keyRegex)"
proof -
  have n: "\<not> startsWith ''key a : b c'' ''keyboard''"
    by (simp add: startsWith_def)
  have ne: "''key a : b c'' \<noteq> []" by simp
  note inst = key_line_match_is_a_search [OF ce_text ne n]
  have tok: "tokenize ''key a : b c'' \<noteq> []" unfolding ce_tok by simp
  show ?thesis
    using inst tok ce_text n by simp
qed

section \<open>A key line with empty quotes\<close>

text \<open>The part of the pattern after its first group.\<close>

definition keyTail :: Regex where
  "keyTail =
     Seq (Rep Greedy 0 Space)
    (Seq (Lit '':'')
    (Seq (Rep Greedy 0 Space)
         (Group 2 (Alt (Seq (Lit [CHR 0x22]) (Seq (Group 3 (Rep Greedy 0 AnyChar)) (Lit [CHR 0x22])))
                       (Rep Greedy 1 Word)))))"

lemma keyRegex_keyTail:
  "keyRegex = Seq (Lit ''key'') (Seq (Rep Greedy 1 Space) (Seq (Group 1 (Rep Lazy 1 AnyChar)) keyTail))"
  by (simp add: keyRegex_def keyTail_def)

lemma keyTail_fails:
  "x \<noteq> CHR '':'' \<Longrightarrow> \<not> classMatches Space x \<Longrightarrow> matchAt keyTail (x # r) c = []"
  by (simp add: keyTail_def Let_def)

lemma not_space_class: "\<not> isSpace c \<Longrightarrow> \<not> classMatches Space c \<and> classMatches AnyChar c"
  by (auto simp: isSpace_def)

lemma concat_map_skip:
  "(\<And>x. x \<in> set xs \<Longrightarrow> f x = []) \<Longrightarrow> concat (map f (xs @ y # ys)) = f y @ concat (map f ys)"
  by (induction xs) simp_all

lemma key_prefix_match:
  assumes "\<not> classMatches Space a"
  shows "matchAt keyRegex (''key '' @ a # r) c0 =
           matchAt (Seq (Group 1 (Rep Lazy 1 AnyChar)) keyTail) (a # r) c0"
  using assms by (simp add: keyRegex_keyTail Let_def)

lemma isSpace_literals:
  "isSpace (CHR '' '')" "\<not> isSpace (CHR ''k'')" "\<not> isSpace (CHR ''e'')"
  "\<not> isSpace (CHR ''y'')" "\<not> isSpace (CHR '':'')" "\<not> isSpace (CHR 0x22)"
  by (simp_all add: isSpace_def)

lemma ce_parse_quotes: "parseAsCommand [CHR 0x22, CHR 0x22] = None"
  by code_simp

text \<open>
  The shape of a simplified text: words without whitespace, one space between two words,
  none at either end. \<open>tidy wordNext s\<close> holds when \<open>s\<close> continues such a text;
  \<open>wordNext\<close> says that a word has to come first.
\<close>

fun tidy :: "bool \<Rightarrow> string \<Rightarrow> bool" where
  "tidy wordNext [] = (\<not> wordNext)"
| "tidy wordNext (c # r) =
     (if c = CHR '' '' then \<not> wordNext \<and> tidy True r else \<not> isSpace c \<and> tidy False r)"

lemma isSpace_blank: "isSpace (CHR '' '')"
  by (simp add: isSpace_def)

lemma tidy_collapse: "tidy False (collapse p s)"
  by (induction s arbitrary: p) (auto simp: isSpace_blank)

lemma tidy_simplified: "simplified x \<noteq> [] \<Longrightarrow> tidy True (simplified x)"
proof -
  assume ne: "simplified x \<noteq> []"
  let ?y = "dropWhile isSpace x"
  have y: "?y \<noteq> []" using ne by (metis collapse.simps(1) simplified_def)
  then obtain c r where cr: "?y = c # r" by (cases ?y) auto
  have c: "\<not> isSpace c" using cr by (metis hd_dropWhile list.sel(1) y)
  then have "c \<noteq> CHR '' ''" using isSpace_blank by auto
  then show ?thesis
    using c tidy_collapse [of False r] by (simp add: simplified_def cr)
qed

lemma tidy_suffix: "tidy w (a @ b) \<Longrightarrow> \<exists>w'. tidy w' b"
  by (induction a arbitrary: w) (auto split: if_splits)

lemma tidy_any: "tidy w s \<Longrightarrow> list_all (classMatches AnyChar) s"
  by (induction s arbitrary: w) (auto simp: isSpace_def split: if_splits)

lemma keyTail_fails_tidy:
  assumes "u \<noteq> []" and "CHR '':'' \<notin> set u" and "last u \<noteq> CHR '' ''"
    and "tidy w (u @ rest)"
  shows "matchAt keyTail (u @ rest) c = []"
proof -
  obtain y ys where u: "u = y # ys" using assms(1) by (cases u) auto
  show ?thesis
  proof (cases "y = CHR '' ''")
    case False
    then have "\<not> isSpace y" using assms(4) u by simp
    then have "\<not> classMatches Space y" by (rule not_space_class [THEN conjunct1])
    moreover have "y \<noteq> CHR '':''" using assms(2) u by auto
    ultimately show ?thesis unfolding u by (simp add: keyTail_fails)
  next
    case True
    then have t: "tidy True (ys @ rest)" using assms(4) u by simp
    have "ys \<noteq> []" using assms(3) True u by auto
    then obtain z zs where ys: "ys = z # zs" by (cases ys) auto
    have z: "z \<noteq> CHR '' ''" "\<not> isSpace z" using t ys by (auto split: if_splits)
    have zc: "z \<noteq> CHR '':''" using assms(2) u ys by auto
    have zs: "\<not> classMatches Space z" using z(2) by (rule not_space_class [THEN conjunct1])
    show ?thesis
      unfolding u ys True using zs zc
      by (simp add: keyTail_def Let_def)
  qed
qed

lemma keyTail_empty_quotes_cases:
  "matchAt keyTail ('':'' @ [CHR 0x22, CHR 0x22]) c
     = [([], c(3 := Some [], 2 := Some [CHR 0x22, CHR 0x22]))]"
  "matchAt keyTail ('' :'' @ [CHR 0x22, CHR 0x22]) c
     = [([], c(3 := Some [], 2 := Some [CHR 0x22, CHR 0x22]))]"
  "matchAt keyTail ('': '' @ [CHR 0x22, CHR 0x22]) c
     = [([], c(3 := Some [], 2 := Some [CHR 0x22, CHR 0x22]))]"
  "matchAt keyTail ('' : '' @ [CHR 0x22, CHR 0x22]) c
     = [([], c(3 := Some [], 2 := Some [CHR 0x22, CHR 0x22]))]"
  by (simp_all add: keyTail_def Let_def upt_rec)

lemma keyTail_empty_quotes_spaced:
  assumes "sp1 = [] \<or> sp1 = '' ''" and "sp2 = [] \<or> sp2 = '' ''"
  shows "matchAt keyTail (sp1 @ '':'' @ sp2 @ [CHR 0x22, CHR 0x22]) c
     = [([], c(3 := Some [], 2 := Some [CHR 0x22, CHR 0x22]))]"
proof -
  consider "sp1 = []" "sp2 = []" | "sp1 = '' ''" "sp2 = []" | "sp1 = []" "sp2 = '' ''"
    | "sp1 = '' ''" "sp2 = '' ''"
    using assms by blast
  then show ?thesis
  proof cases
    case 1
    then show ?thesis using keyTail_empty_quotes_cases(1) [of c] by simp
  next
    case 2
    then show ?thesis using keyTail_empty_quotes_cases(2) [of c] by simp
  next
    case 3
    then show ?thesis using keyTail_empty_quotes_cases(3) [of c] by simp
  next
    case 4
    then show ?thesis using keyTail_empty_quotes_cases(4) [of c] by simp
  qed
qed

lemma lazy_group_first_tidy:
  assumes td: "tidy True (sq @ sp1 @ '':'' @ sp2 @ [CHR 0x22, CHR 0x22])"
    and sp: "sp1 = [] \<or> sp1 = '' ''" "sp2 = [] \<or> sp2 = '' ''"
    and ne: "sq \<noteq> []" and nc: "CHR '':'' \<notin> set sq" and ls: "last sq \<noteq> CHR '' ''"
  shows "\<exists>others. matchAt (Seq (Group 1 (Rep Lazy 1 AnyChar)) keyTail)
             (sq @ sp1 @ '':'' @ sp2 @ [CHR 0x22, CHR 0x22]) c0
           = ([], c0(1 := Some sq, 3 := Some [], 2 := Some [CHR 0x22, CHR 0x22])) # others"
proof -
  define rest where "rest = sp1 @ '':'' @ sp2 @ [CHR 0x22, CHR 0x22]"
  let ?S = "sq @ rest"
  let ?k = "length (takeWhile (classMatches AnyChar) ?S)"
  let ?n = "length sq"
  let ?G = "\<lambda>j. (drop j ?S, c0(1 := Some (take (length ?S - length (drop j ?S)) ?S)))"
  let ?F = "\<lambda>(s', caps'). matchAt keyTail s' caps'"
  have td': "tidy True (sq @ rest)" using td by (simp add: rest_def)
  have any: "list_all (classMatches AnyChar) sq"
    using tidy_any [OF td'] by simp
  have nk: "?n \<le> ?k"
    using any by (simp add: takeWhile_length_prefix)
  have n1: "1 \<le> ?n" using ne by (cases sq) simp_all
  have split: "[1 ..< Suc ?k] = [1 ..< ?n] @ ?n # [Suc ?n ..< Suc ?k]"
  proof -
    have "[1 ..< Suc ?k] = [1 ..< ?n] @ [?n ..< Suc ?k]"
      using n1 nk upt_add_eq_append [of 1 ?n "Suc ?k - ?n"] by simp
    also have "[?n ..< Suc ?k] = ?n # [Suc ?n ..< Suc ?k]"
      using nk by (simp add: upt_conv_Cons)
    finally show ?thesis .
  qed
  have grp: "matchAt (Group 1 (Rep Lazy 1 AnyChar)) ?S c0 = map ?G [1 ..< Suc ?k]"
    by (simp add: Let_def)
  have early: "?F x = []" if "x \<in> set (map ?G [1 ..< ?n])" for x
  proof -
    from that obtain j where j: "1 \<le> j" "j < ?n" and x: "x = ?G j" by auto
    have d: "drop j sq \<noteq> []" using j(2) by simp
    have c: "CHR '':'' \<notin> set (drop j sq)" using nc by (meson in_set_dropD)
    have l: "last (drop j sq) \<noteq> CHR '' ''" using ls j(2) by simp
    have "take j sq @ (drop j sq @ rest) = sq @ rest" by simp
    then have "tidy True (take j sq @ (drop j sq @ rest))" using td' by metis
    then obtain w where w: "tidy w (drop j sq @ rest)" using tidy_suffix by blast
    have "fst x = drop j sq @ rest" using x j(2) by simp
    then show ?thesis
      using keyTail_fails_tidy [OF d c l w] by (cases x) simp
  qed
  have atn: "?F (?G ?n) = [([], c0(1 := Some sq, 3 := Some [], 2 := Some [CHR 0x22, CHR 0x22]))]"
    using keyTail_empty_quotes_spaced [OF sp, of "c0(1 := Some sq)"] by (simp add: rest_def)
  have "matchAt (Seq (Group 1 (Rep Lazy 1 AnyChar)) keyTail) ?S c0
      = concat (map ?F (map ?G [1 ..< ?n] @ ?G ?n # map ?G [Suc ?n ..< Suc ?k]))"
    unfolding matchAt.simps(3) grp split by simp
  also have "\<dots> = ?F (?G ?n) @ concat (map ?F (map ?G [Suc ?n ..< Suc ?k]))"
    by (rule concat_map_skip) (rule early)
  finally show ?thesis
    unfolding atn by (simp add: rest_def)
qed

lemma tokenize_empty_quotes_general:
  assumes t: "simplified (stripComments line) = ''key '' @ sq @ sp1 @ '':'' @ sp2 @ [CHR 0x22, CHR 0x22]"
    and sp: "sp1 = [] \<or> sp1 = '' ''" "sp2 = [] \<or> sp2 = '' ''"
    and ne: "sq \<noteq> []" and nc: "CHR '':'' \<notin> set sq" and ls: "last sq \<noteq> CHR '' ''"
  shows "tokenize line =
           [\<lparr>tokenType = KeyKeyword, tokenText = []\<rparr>,
            \<lparr>tokenType = KeySequence, tokenText = filter (\<lambda>c. c \<noteq> CHR '' '') sq\<rparr>,
            \<lparr>tokenType = Command, tokenText = [CHR 0x22, CHR 0x22]\<rparr>]"
proof -
  define rest where "rest = sp1 @ '':'' @ sp2 @ [CHR 0x22, CHR 0x22]"
  define tx where "tx = ''key '' @ sq @ rest"
  have t': "simplified (stripComments line) = tx" using t by (simp add: tx_def rest_def)
  have nonempty: "tx \<noteq> []" by (simp add: tx_def)
  have "tidy True tx" using tidy_simplified [of "stripComments line"] nonempty unfolding t' by simp
  then have td: "tidy True (sq @ rest)"
    by (simp add: tx_def isSpace_literals)
  obtain a r where sq: "sq = a # r" using ne by (cases sq) auto
  have a: "\<not> classMatches Space a"
    using td sq not_space_class [of a] by (auto split: if_splits simp: isSpace_blank)
  have nt: "\<not> startsWith tx ''keyboard''" by (simp add: startsWith_def tx_def)
  have "matchAt keyRegex tx (\<lambda>_. None) =
      matchAt (Seq (Group 1 (Rep Lazy 1 AnyChar)) keyTail) (sq @ rest) (\<lambda>_. None)"
    unfolding tx_def sq
    using key_prefix_match [OF a, of "r @ rest" "\<lambda>_. None"] by simp
  then obtain others where m: "matchAt keyRegex tx (\<lambda>_. None) =
      ([], (\<lambda>_. None)(1 := Some sq, 3 := Some [], 2 := Some [CHR 0x22, CHR 0x22])) # others"
    using lazy_group_first_tidy [OF td [unfolded rest_def] sp ne nc ls, of "\<lambda>_. None"]
    unfolding rest_def by auto
  have "search keyRegex tx =
      Some ((\<lambda>_. None)(1 := Some sq, 3 := Some [], 2 := Some [CHR 0x22, CHR 0x22]))"
    using m nonempty by (cases tx) simp_all
  then show ?thesis
    unfolding tokenize_key_branch [OF t' nonempty nt] by (simp add: captured_def)
qed

text \<open>
  Claim C5, as amended. Take any line that, once its comment is stripped and its whitespace
  simplified, reads \<open>key S : ""\<close>, with or without the space on either side of the
  colon, where the sequence \<open>S\<close> is not empty, holds no colon and does not end in a
  space. \<open>tokenize\<close> emits a Command token for it and no OutputText token. The token
  does not carry an empty text: the third capture is empty, so the branch taken stores the
  second capture, which is the two double quotes. No command has that name, so the entry
  decoded from the line has no command and no output text.
\<close>

theorem empty_quotes_give_command_token:
  assumes "simplified (stripComments line) = ''key '' @ sq @ sp1 @ '':'' @ sp2 @ [CHR 0x22, CHR 0x22]"
    and "sp1 = [] \<or> sp1 = '' ''" and "sp2 = [] \<or> sp2 = '' ''"
    and "sq \<noteq> []" and "CHR '':'' \<notin> set sq" and "last sq \<noteq> CHR '' ''"
  shows "tokenize line =
           [\<lparr>tokenType = KeyKeyword, tokenText = []\<rparr>,
            \<lparr>tokenType = KeySequence, tokenText = filter (\<lambda>c. c \<noteq> CHR '' '') sq\<rparr>,
            \<lparr>tokenType = Command, tokenText = [CHR 0x22, CHR 0x22]\<rparr>]
       \<and> command (makeEntry P (tokenize line)) = NoCommand
       \<and> entryText (makeEntry P (tokenize line)) = []"
  unfolding tokenize_empty_quotes_general [OF assms]
  by (simp add: makeEntry_def ce_parse_quotes Let_def)

lemma ce_spaced_line: "simplified (stripComments (''key  Home -AnyMod :'' @ [CHR 0x22, CHR 0x22] @ ''  # nothing''))
   = ''key '' @ ''Home -AnyMod'' @ '' '' @ '':'' @ [] @ [CHR 0x22, CHR 0x22]"
  by code_simp

theorem empty_quotes_give_command_token_witness:
  "simplified (stripComments (''key  Home -AnyMod :'' @ [CHR 0x22, CHR 0x22] @ ''  # nothing''))
     = ''key '' @ ''Home -AnyMod'' @ '' '' @ '':'' @ [] @ [CHR 0x22, CHR 0x22]
   \<and> ''Home -AnyMod'' \<noteq> []
   \<and> CHR '':'' \<notin> set ''Home -AnyMod''
   \<and> last ''Home -AnyMod'' \<noteq> CHR '' ''
   \<and> tokenize (''key  Home -AnyMod :'' @ [CHR 0x22, CHR 0x22] @ ''  # nothing'') =
        [\<lparr>tokenType = KeyKeyword, tokenText = []\<rparr>,
         \<lparr>tokenType = KeySequence, tokenText = ''Home-AnyMod''\<rparr>,
         \<lparr>tokenType = Command, tokenText = [CHR 0x22, CHR 0x22]\<rparr>]
   \<and> command (makeEntry samplePlatform
        (tokenize (''key  Home -AnyMod :'' @ [CHR 0x22, CHR 0x22] @ ''  # nothing''))) = NoCommand
   \<and> entryText (makeEntry samplePlatform
        (tokenize (''key  Home -AnyMod :'' @ [CHR 0x22, CHR 0x22] @ ''  # nothing''))) = []"
proof -
  have ne: "''Home -AnyMod'' \<noteq> []" by simp
  have nc: "CHR '':'' \<notin> set ''Home -AnyMod''" by simp
  have ls: "last ''Home -AnyMod'' \<noteq> CHR '' ''" by simp
  have s1: "'' '' = [] \<or> '' '' = '' ''" by simp
  have s2: "[] = [] \<or> [] = '' ''" by simp
  note inst = empty_quotes_give_command_token [OF ce_spaced_line s1 s2 ne nc ls, of samplePlatform]
  have f: "filter (\<lambda>c. c \<noteq> CHR '' '') ''Home -AnyMod'' = ''Home-AnyMod''" by simp
  show ?thesis
    by (intro conjI)
       (rule ce_spaced_line ne nc ls inst [THEN conjunct1, unfolded f] inst [THEN conjunct2, THEN conjunct1]
          inst [THEN conjunct2, THEN conjunct2])+
qed

text \<open>
  The claim as it stands fails on the text of the token: it is two characters long.
\<close>

theorem empty_quotes_token_text_counterexample:
  "tokenize ''key a : \"\"'' =
     [\<lparr>tokenType = KeyKeyword, tokenText = []\<rparr>,
      \<lparr>tokenType = KeySequence, tokenText = ''a''\<rparr>,
      \<lparr>tokenType = Command, tokenText = ''\"\"''\<rparr>]
   \<and> tokenText (tokenize ''key a : \"\"'' ! 2) \<noteq> []"
  by code_simp

section \<open>An entry made from a condition and a result\<close>

lemma ce_parse_scrollLineUp: "parseAsCommand ''scrollLineUp'' = Some ScrollLineUpCommand"
  by code_simp

lemma ce_entryString_line1:
  "readLine (''keyboard '' @ [CHR 0x22] @ ''temporary'' @ [CHR 0x22, CHR 0x0A] @ ''key ''
              @ ''Up+Shift'' @ '' : '' @ ''scrollLineUp'') =
     (''keyboard \"temporary\"'' @ [CHR 0x0A], ''key Up+Shift : scrollLineUp'')"
  by code_simp

lemma ce_tokenize_title:
  "tokenize (''keyboard \"temporary\"'' @ [CHR 0x0A]) =
     [\<lparr>tokenType = TitleKeyword, tokenText = []\<rparr>,
      \<lparr>tokenType = TitleText, tokenText = ''temporary''\<rparr>]"
  by code_simp

lemma ce_entryString_line2:
  "readLine ''key Up+Shift : scrollLineUp'' = (''key Up+Shift : scrollLineUp'', [])"
  by code_simp

lemma ce_tokenize_upShift:
  "tokenize ''key Up+Shift : scrollLineUp'' =
     [\<lparr>tokenType = KeyKeyword, tokenText = []\<rparr>,
      \<lparr>tokenType = KeySequence, tokenText = ''Up+Shift''\<rparr>,
      \<lparr>tokenType = Command, tokenText = ''scrollLineUp''\<rparr>]"
  by code_simp

lemma findDescription_done: "r_description r \<noteq> [] \<Longrightarrow> findDescription r = r"
  by (simp add: findDescription.simps [of r])

lemma findDescription_title:
  assumes "r_description r = []" and "r_source r \<noteq> []"
    and "tokenize (fst (readLine (r_source r))) = t0 # t1 # ts"
    and "tokenType t0 = TitleKeyword"
  shows "findDescription r =
     findDescription (r\<lparr>r_source := snd (readLine (r_source r)), r_description := i18n (tokenText t1)\<rparr>)"
  using assms by (subst findDescription.simps) (simp add: Let_def)

lemma findDescription_other:
  assumes "r_description r = []" and "r_source r \<noteq> []"
    and "tokenize (fst (readLine (r_source r))) = [] \<or>
         tokenType (hd (tokenize (fst (readLine (r_source r))))) \<noteq> TitleKeyword"
  shows "findDescription r = findDescription (r\<lparr>r_source := snd (readLine (r_source r))\<rparr>)"
  using assms by (subst findDescription.simps) (auto simp: Let_def)

lemma createEntry_reader:
  "KeyboardTranslatorReader P
     (''keyboard '' @ [CHR 0x22] @ ''temporary'' @ [CHR 0x22, CHR 0x0A] @ ''key ''
        @ ''Up+Shift'' @ '' : '' @ ''scrollLineUp'') =
   \<lparr>r_source = [], r_description = ''temporary'',
    r_nextEntry = makeEntry P (tokenize ''key Up+Shift : scrollLineUp''), r_hasNext = True\<rparr>"
proof -
  let ?src = "''keyboard '' @ [CHR 0x22] @ ''temporary'' @ [CHR 0x22, CHR 0x0A] @ ''key ''
        @ ''Up+Shift'' @ '' : '' @ ''scrollLineUp''"
  let ?r0 = "\<lparr>r_source = ?src, r_description = [], r_nextEntry = defaultEntry P, r_hasNext = False\<rparr>"
  let ?r1 = "\<lparr>r_source = ''key Up+Shift : scrollLineUp'', r_description = ''temporary'',
             r_nextEntry = defaultEntry P, r_hasNext = False\<rparr>"
  have src: "r_source ?r0 = ?src" by simp
  have "findDescription ?r0 =
      findDescription (?r0\<lparr>r_source := snd (readLine (r_source ?r0)),
                          r_description := i18n (tokenText \<lparr>tokenType = TitleText, tokenText = ''temporary''\<rparr>)\<rparr>)"
    by (rule findDescription_title) (simp_all only: src ce_entryString_line1 fst_conv ce_tokenize_title, simp_all)
  also have "\<dots> = findDescription ?r1"
    by (simp only: src ce_entryString_line1 snd_conv) (simp add: i18n_def)
  also have "\<dots> = ?r1" by (rule findDescription_done) simp
  finally have fd: "findDescription ?r0 = ?r1" .
  have key: "isKeyLine (fst (readLine (r_source ?r1)))"
    by (simp add: ce_entryString_line2 isKeyLine_def ce_tokenize_upShift)
  have "readNext P ?r1 = ?r1\<lparr>r_source := snd (readLine (r_source ?r1)),
                     r_nextEntry := makeEntry P (tokenize (fst (readLine (r_source ?r1)))),
                     r_hasNext := True\<rparr>"
    by (rule readNext_key [OF _ key]) simp
  then have "readNext P ?r1 = \<lparr>r_source = [], r_description = ''temporary'',
    r_nextEntry = makeEntry P (tokenize ''key Up+Shift : scrollLineUp''), r_hasNext = True\<rparr>"
    by (simp add: ce_entryString_line2)
  then show ?thesis
    unfolding KeyboardTranslatorReader_def fd .
qed

lemma createEntry_upShift:
  "createEntry P ''Up+Shift'' ''scrollLineUp'' = makeEntry P (tokenize ''key Up+Shift : scrollLineUp'')"
  by (simp add: createEntry_def ce_parse_scrollLineUp hasNextEntry_def nextEntry_def
      createEntry_reader [simplified])

lemma ce_lower: "toLower ''Up+Shift'' = ''up+shift''"
  by code_simp

lemma ce_items: "decodeItems True ''up+shift'' [] True = [(''up'', True), (''shift'', True)]"
  by code_simp

lemma ce_classify:
  "parseAsModifier ''up'' = None" "parseAsStateFlag ''up'' = None"
  "parseAsModifier ''shift'' = Some ShiftModifier"
  by (simp_all add: parseAsModifier_def parseAsStateFlag_def)

lemma makeEntry_upShift:
  "makeEntry P (tokenize ''key Up+Shift : scrollLineUp'') =
     \<lparr>keyCode = (case fromString P ''up'' of [] \<Rightarrow> Key_unknown P | first # _ \<Rightarrow> first),
      modifiers = modifierValue P ShiftModifier, modifierMask = modifierValue P ShiftModifier,
      state = 0, stateMask = 0, command = ScrollLineUpCommand, entryText = []\<rparr>"
proof -
  let ?st0 = "\<lparr>buffer = [], isWanted = True, keyCodeRef = Key_unknown P, tempModifiers = 0,
                  tempModifierMask = 0, tempFlags = 0, tempFlagMask = 0\<rparr>"
  let ?k = "case fromString P ''up'' of [] \<Rightarrow> Key_unknown P | first # _ \<Rightarrow> first"
  have s1: "applyItem P ?st0 (''up'', True) = ?st0\<lparr>keyCodeRef := ?k\<rparr>"
    by (cases "fromString P ''up''")
       (simp_all add: applyItem_def classifyItem_def ce_classify parseAsKeyCode_def)
  have s2: "applyItem P (?st0\<lparr>keyCodeRef := ?k\<rparr>) (''shift'', True) =
      ?st0\<lparr>keyCodeRef := ?k, tempModifiers := modifierValue P ShiftModifier,
            tempModifierMask := modifierValue P ShiftModifier\<rparr>"
    by (simp add: applyItem_def classifyItem_def ce_classify)
  have d: "decodeSequence P ''up+shift'' (Key_unknown P) 0 0 0 0 =
      \<lparr>returned = True, keyCodeOut = ?k, modifiersOut = modifierValue P ShiftModifier,
       modifierMaskOut = modifierValue P ShiftModifier, flagsOut = 0, flagMaskOut = 0\<rparr>"
    unfolding decodeSequence_accs ce_items
    by (simp only: foldl.simps s1 s2 Let_def) simp
  show ?thesis
    by (simp add: makeEntry_def ce_tokenize_upShift ce_lower d ce_parse_scrollLineUp)
qed

text \<open>
  Claim C6. For every platform, \<open>createEntry("Up+Shift", "scrollLineUp")\<close> is the entry
  that tokenizing and decoding the line \<open>key Up+Shift : scrollLineUp\<close> gives, which is
  also the entry a reader buffers when that line is all its input: the key code of
  \<open>up\<close> (or \<open>Key_unknown\<close> when the table does not know the name), Shift required
  present, no state flag, the command ScrollLineUp and no text.
\<close>

theorem createEntry_upShift_is_line_entry:
  "createEntry P ''Up+Shift'' ''scrollLineUp''
     = makeEntry P (tokenize ''key Up+Shift : scrollLineUp'')
   \<and> createEntry P ''Up+Shift'' ''scrollLineUp''
     = r_nextEntry (readNext P \<lparr>r_source = ''key Up+Shift : scrollLineUp'', r_description = d,
                                  r_nextEntry = e, r_hasNext = h\<rparr>)
   \<and> createEntry P ''Up+Shift'' ''scrollLineUp''
     = \<lparr>keyCode = (case fromString P ''up'' of [] \<Rightarrow> Key_unknown P | first # _ \<Rightarrow> first),
        modifiers = modifierValue P ShiftModifier, modifierMask = modifierValue P ShiftModifier,
        state = 0, stateMask = 0, command = ScrollLineUpCommand, entryText = []\<rparr>"
proof -
  let ?r = "\<lparr>r_source = ''key Up+Shift : scrollLineUp'', r_description = d,
             r_nextEntry = e, r_hasNext = h\<rparr>"
  have key: "isKeyLine (fst (readLine (r_source ?r)))"
    by (simp add: ce_entryString_line2 isKeyLine_def ce_tokenize_upShift)
  have "readNext P ?r = ?r\<lparr>r_source := snd (readLine (r_source ?r)),
                     r_nextEntry := makeEntry P (tokenize (fst (readLine (r_source ?r)))),
                     r_hasNext := True\<rparr>"
    by (rule readNext_key [OF _ key]) simp
  then have "r_nextEntry (readNext P ?r) = makeEntry P (tokenize ''key Up+Shift : scrollLineUp'')"
    by (simp add: ce_entryString_line2)
  then show ?thesis
    by (simp only: createEntry_upShift makeEntry_upShift)
qed

theorem createEntry_upShift_is_line_entry_witness:
  "createEntry samplePlatform ''Up+Shift'' ''scrollLineUp''
     = \<lparr>keyCode = 0x01000013, modifiers = 0x02000000, modifierMask = 0x02000000,
        state = 0, stateMask = 0, command = ScrollLineUpCommand, entryText = []\<rparr>"
  using createEntry_upShift_is_line_entry [of samplePlatform, THEN conjunct2, THEN conjunct2]
  by (simp add: samplePlatform_def)

section \<open>Reading a whole file\<close>

text \<open>
  An input whose lines are \<open>ls\<close>, each ended by a line feed.
\<close>

definition fileOf :: "string list \<Rightarrow> string" where
  "fileOf ls = concat (map (\<lambda>l. l @ [CHR 0x0A]) ls)"

lemma fileOf_simps [simp]:
  "fileOf [] = []" "fileOf (l # ls) = l @ CHR 0x0A # fileOf ls"
  by (simp_all add: fileOf_def)

lemma readLine_line:
  "CHR 0x0A \<notin> set l \<Longrightarrow> readLine (l @ CHR 0x0A # rest) = (l @ [CHR 0x0A], rest)"
proof -
  assume nl: "CHR 0x0A \<notin> set l"
  then have d: "dropWhile (\<lambda>c. c \<noteq> CHR 0x0A) (l @ CHR 0x0A # rest) = CHR 0x0A # rest"
    by (auto simp: dropWhile_append3)
  have t: "takeWhile (\<lambda>c. c \<noteq> CHR 0x0A) (l @ CHR 0x0A # rest) = l"
    using nl by (auto simp: takeWhile_tail)
  show ?thesis unfolding readLine_def d t by simp
qed

lemma collapse_trailing_space: "isSpace c \<Longrightarrow> collapse p (xs @ [c]) = collapse p xs"
  by (induction xs arbitrary: p) simp_all

lemma simplified_trailing_space: "isSpace c \<Longrightarrow> simplified (xs @ [c]) = simplified xs"
proof -
  assume c: "isSpace c"
  show ?thesis
  proof (cases "\<forall>x \<in> set xs. isSpace x")
    case True
    then have a: "dropWhile isSpace (xs @ [c]) = []" and b: "dropWhile isSpace xs = []"
      using c by auto
    show ?thesis unfolding simplified_def a b by simp
  next
    case False
    then have "dropWhile isSpace (xs @ [c]) = dropWhile isSpace xs @ [c]"
      by (auto simp: dropWhile_append1)
    then show ?thesis by (simp add: simplified_def collapse_trailing_space [OF c])
  qed
qed

lemma firstCommentStart_bound: "firstCommentStart q s = Some j \<Longrightarrow> j < length s"
  by (induction s arbitrary: j) (auto split: if_splits)

lemma isSpace_newline: "isSpace (CHR 0x0A)"
  by (simp add: isSpace_def)

lemma tokenize_newline: "tokenize (l @ [CHR 0x0A]) = tokenize l"
proof -
  have f: "firstCommentStart False (l @ [CHR 0x0A]) = firstCommentStart False l"
    by (simp add: firstCommentStart_snoc)
  have "simplified (stripComments (l @ [CHR 0x0A])) = simplified (stripComments l)"
  proof (cases "firstCommentStart False l")
    case None
    then show ?thesis
      by (simp add: stripComments_eq f simplified_trailing_space [OF isSpace_newline])
  next
    case (Some j)
    then have "j < length l" by (rule firstCommentStart_bound)
    then show ?thesis using Some by (simp add: stripComments_eq f)
  qed
  then show ?thesis by (simp add: tokenize_def)
qed


lemma tokenize_title_text:
  assumes "tokenize l \<noteq> []" and "tokenType (hd (tokenize l)) = TitleKeyword"
  shows "\<exists>title. title \<noteq> [] \<and>
           tokenize l = [\<lparr>tokenType = TitleKeyword, tokenText = []\<rparr>,
                         \<lparr>tokenType = TitleText, tokenText = title\<rparr>]"
  using assms by (auto simp: tokenize_def Let_def split: if_splits option.splits)

lemma allEntries_none: "\<not> r_hasNext r \<Longrightarrow> allEntries P r = []"
  by (simp add: allEntries.simps [of P r] hasNextEntry_def)

lemma allEntries_some:
  "r_hasNext r \<Longrightarrow> allEntries P r = r_nextEntry r # allEntries P (readNext P r)"
  by (subst allEntries.simps) (simp add: hasNextEntry_def nextEntry_def)

lemma fileOf_append: "fileOf (xs @ ys) = fileOf xs @ fileOf ys"
  by (simp add: fileOf_def)

lemma readLine_last: "CHR 0x0A \<notin> set l \<Longrightarrow> readLine l = (l, [])"
proof -
  assume "CHR 0x0A \<notin> set l"
  then have d: "dropWhile (\<lambda>c. c \<noteq> CHR 0x0A) l = []" by auto
  show ?thesis unfolding readLine_def d by simp
qed

lemma tokenize_empty: "tokenize [] = []"
  by (simp add: tokenize_def simplified_def stripComments_def)

lemma allEntries_readNext_lines:
  assumes "\<forall>l \<in> set body. CHR 0x0A \<notin> set l" and "CHR 0x0A \<notin> set final"
    and "r_source r = fileOf body @ final"
  shows "allEntries P (readNext P r) =
           map (\<lambda>l. makeEntry P (tokenize l)) (filter isKeyLine (body @ [final]))"
  using assms
proof (induction body arbitrary: r)
  case Nil
  have src: "r_source r = final" using Nil.prems(3) by simp
  show ?case
  proof (cases "final = []")
    case True
    then show ?thesis
      using src by (simp add: readNext_empty allEntries_none isKeyLine_def tokenize_empty)
  next
    case False
    have ne: "r_source r \<noteq> []" using src False by simp
    have rl: "readLine (r_source r) = (final, [])"
      unfolding src by (rule readLine_last [OF Nil.prems(2)])
    show ?thesis
    proof (cases "isKeyLine final")
      case True
      let ?r' = "r\<lparr>r_source := [], r_nextEntry := makeEntry P (tokenize final), r_hasNext := True\<rparr>"
      have "readNext P r = ?r'"
        using readNext_key [OF ne, of P] True by (simp add: rl)
      moreover have "allEntries P ?r' = makeEntry P (tokenize final) # allEntries P (readNext P ?r')"
        by (simp add: allEntries_some)
      moreover have "allEntries P (readNext P ?r') = []"
        by (simp add: readNext_empty allEntries_none)
      ultimately show ?thesis using True by simp
    next
      case nokey: False
      have "readNext P r = readNext P (r\<lparr>r_source := []\<rparr>)"
        using readNext_skip [OF ne, of P] nokey by (simp add: rl)
      then show ?thesis
        using nokey by (simp add: readNext_empty allEntries_none)
    qed
  qed
next
  case (Cons l ls)
  have nl: "CHR 0x0A \<notin> set l" using Cons.prems(1) by simp
  have src: "r_source r = l @ CHR 0x0A # (fileOf ls @ final)" using Cons.prems(3) by simp
  have ne: "r_source r \<noteq> []" using src by simp
  have rl: "readLine (r_source r) = (l @ [CHR 0x0A], fileOf ls @ final)"
    unfolding src by (rule readLine_line [OF nl])
  have kl: "isKeyLine (fst (readLine (r_source r))) = isKeyLine l"
    by (simp add: rl isKeyLine_def tokenize_newline)
  show ?case
  proof (cases "isKeyLine l")
    case True
    let ?r' = "r\<lparr>r_source := fileOf ls @ final, r_nextEntry := makeEntry P (tokenize l),
                 r_hasNext := True\<rparr>"
    have "readNext P r = ?r'"
      using readNext_key [OF ne, of P] kl True by (simp add: rl tokenize_newline)
    moreover have "allEntries P ?r' = makeEntry P (tokenize l) # allEntries P (readNext P ?r')"
      by (simp add: allEntries_some)
    moreover have "allEntries P (readNext P ?r') =
        map (\<lambda>l. makeEntry P (tokenize l)) (filter isKeyLine (ls @ [final]))"
      using Cons.prems(1,2) by (intro Cons.IH) simp_all
    ultimately show ?thesis using True by simp
  next
    case False
    let ?r' = "r\<lparr>r_source := fileOf ls @ final\<rparr>"
    have "readNext P r = readNext P ?r'"
      using readNext_skip [OF ne, of P] kl False by (simp add: rl)
    moreover have "allEntries P (readNext P ?r') =
        map (\<lambda>l. makeEntry P (tokenize l)) (filter isKeyLine (ls @ [final]))"
      using Cons.prems(1,2) by (intro Cons.IH) simp_all
    ultimately show ?thesis using False by simp
  qed
qed

lemma findDescription_before:
  assumes "\<forall>l \<in> set before. CHR 0x0A \<notin> set l
             \<and> (tokenize l = [] \<or> tokenType (hd (tokenize l)) \<noteq> TitleKeyword)"
    and "r_description r = []" and "r_source r = fileOf before @ src"
  shows "findDescription r = findDescription (r\<lparr>r_source := src\<rparr>)"
  using assms
proof (induction before arbitrary: r)
  case Nil
  have "r\<lparr>r_source := src\<rparr> = r" using Nil.prems(3) by (cases r) simp
  then show ?case by simp
next
  case (Cons l ls)
  have nl: "CHR 0x0A \<notin> set l"
    and tk: "tokenize l = [] \<or> tokenType (hd (tokenize l)) \<noteq> TitleKeyword"
    using Cons.prems(1) by simp_all
  have s: "r_source r = l @ CHR 0x0A # (fileOf ls @ src)" using Cons.prems(3) by simp
  have ne: "r_source r \<noteq> []" using s by simp
  have rl: "readLine (r_source r) = (l @ [CHR 0x0A], fileOf ls @ src)"
    unfolding s by (rule readLine_line [OF nl])
  have "findDescription r = findDescription (r\<lparr>r_source := snd (readLine (r_source r))\<rparr>)"
    using tk by (intro findDescription_other [OF Cons.prems(2) ne]) (simp add: rl tokenize_newline)
  also have "\<dots> = findDescription (r\<lparr>r_source := fileOf ls @ src\<rparr>)"
    by (simp add: rl)
  also have "\<dots> = findDescription (r\<lparr>r_source := fileOf ls @ src\<rparr>\<lparr>r_source := src\<rparr>)"
    using Cons.prems by (intro Cons.IH) simp_all
  finally show ?case by simp
qed

lemma findDescription_at_title:
  assumes "CHR 0x0A \<notin> set title" and "tokenize title \<noteq> []"
    and "tokenType (hd (tokenize title)) = TitleKeyword"
    and "r_description r = []" and "r_source r = title @ CHR 0x0A # src"
  shows "\<exists>d. findDescription r = r\<lparr>r_source := src, r_description := d\<rparr>"
proof -
  obtain d where d: "d \<noteq> []"
      and tk: "tokenize title = [\<lparr>tokenType = TitleKeyword, tokenText = []\<rparr>,
                                 \<lparr>tokenType = TitleText, tokenText = d\<rparr>]"
    using tokenize_title_text [OF assms(2,3)] by blast
  have ne: "r_source r \<noteq> []" using assms(5) by simp
  have rl: "readLine (r_source r) = (title @ [CHR 0x0A], src)"
    unfolding assms(5) by (rule readLine_line [OF assms(1)])
  have "findDescription r =
      findDescription (r\<lparr>r_source := snd (readLine (r_source r)),
          r_description := i18n (tokenText \<lparr>tokenType = TitleText, tokenText = d\<rparr>)\<rparr>)"
    by (rule findDescription_title [OF assms(4) ne, where ts = "[]"])
       (simp add: rl tokenize_newline tk, simp)
  also have "\<dots> = findDescription (r\<lparr>r_source := src, r_description := d\<rparr>)"
    by (simp add: rl i18n_def)
  also have "\<dots> = r\<lparr>r_source := src, r_description := d\<rparr>"
    using d by (intro findDescription_done) simp
  finally show ?thesis by blast
qed

lemma findDescription_at_end: "r_source r = [] \<Longrightarrow> findDescription r = r"
  by (simp add: findDescription.simps [of r])

lemma findDescription_no_title:
  assumes "\<forall>l \<in> set (ls @ [final]). CHR 0x0A \<notin> set l
             \<and> (tokenize l = [] \<or> tokenType (hd (tokenize l)) \<noteq> TitleKeyword)"
    and "r_description r = []" and "r_source r = fileOf ls @ final"
  shows "findDescription r = r\<lparr>r_source := []\<rparr>"
proof -
  have b: "\<forall>l \<in> set ls. CHR 0x0A \<notin> set l
             \<and> (tokenize l = [] \<or> tokenType (hd (tokenize l)) \<noteq> TitleKeyword)"
    and nl: "CHR 0x0A \<notin> set final"
    and tk: "tokenize final = [] \<or> tokenType (hd (tokenize final)) \<noteq> TitleKeyword"
    using assms(1) by simp_all
  let ?r = "r\<lparr>r_source := final\<rparr>"
  have a: "findDescription r = findDescription ?r"
    by (rule findDescription_before [OF b assms(2,3)])
  show ?thesis
  proof (cases "final = []")
    case True
    then have "findDescription ?r = ?r" by (intro findDescription_at_end) simp
    then show ?thesis using a True by simp
  next
    case False
    have "findDescription ?r = findDescription (?r\<lparr>r_source := snd (readLine (r_source ?r))\<rparr>)"
      using tk False assms(2)
      by (intro findDescription_other) (simp_all add: readLine_last [OF nl])
    also have "\<dots> = findDescription (r\<lparr>r_source := []\<rparr>)"
      by (simp add: readLine_last [OF nl])
    also have "\<dots> = r\<lparr>r_source := []\<rparr>" by (intro findDescription_at_end) simp
    finally show ?thesis using a by simp
  qed
qed

lemma allEntries_no_title:
  assumes "\<forall>l \<in> set (ls @ [final]). CHR 0x0A \<notin> set l
             \<and> (tokenize l = [] \<or> tokenType (hd (tokenize l)) \<noteq> TitleKeyword)"
  shows "allEntries P (KeyboardTranslatorReader P (fileOf ls @ final)) = []"
proof -
  let ?r0 = "\<lparr>r_source = fileOf ls @ final, r_description = [],
              r_nextEntry = defaultEntry P, r_hasNext = False\<rparr>"
  have "findDescription ?r0 = ?r0\<lparr>r_source := []\<rparr>"
    by (rule findDescription_no_title [OF assms]) simp_all
  then have "\<not> r_hasNext (KeyboardTranslatorReader P (fileOf ls @ final))"
    unfolding KeyboardTranslatorReader_def by (simp add: readNext_hasNext_empty)
  then show ?thesis by (rule allEntries_none)
qed

text \<open>
  Claim C7, as amended. The constructor reads lines until it has found a title line, and
  drops whatever it reads on the way, key lines included; only then does \<open>readNext\<close>
  look for key lines. So for every input made of any lines that are not title lines, then
  a title line, then any lines, the last one with or without its line feed, a reader
  followed by the loop of \<open>hasNextEntry\<close> and \<open>nextEntry\<close> yields the entries of
  exactly the key lines after the title, in file order, each once: with N key lines
  there, N entries. An input without a title line yields no entry, whatever key lines it
  holds.
\<close>

theorem entries_of_key_lines_after_title:
  assumes "\<forall>l \<in> set (before @ [title] @ body @ [final]). CHR 0x0A \<notin> set l"
    and "\<forall>l \<in> set before. tokenize l = [] \<or> tokenType (hd (tokenize l)) \<noteq> TitleKeyword"
    and "tokenize title \<noteq> [] \<and> tokenType (hd (tokenize title)) = TitleKeyword"
  shows "allEntries P (KeyboardTranslatorReader P (fileOf (before @ [title] @ body) @ final)) =
           map (\<lambda>l. makeEntry P (tokenize l)) (filter isKeyLine (body @ [final]))
       \<and> length (allEntries P
            (KeyboardTranslatorReader P (fileOf (before @ [title] @ body) @ final))) =
           length (filter isKeyLine (body @ [final]))
       \<and> (\<forall>ls lst.
             (\<forall>l \<in> set (ls @ [lst]). CHR 0x0A \<notin> set l
                \<and> (tokenize l = [] \<or> tokenType (hd (tokenize l)) \<noteq> TitleKeyword)) \<longrightarrow>
             allEntries P (KeyboardTranslatorReader P (fileOf ls @ lst)) = [])"
proof -
  let ?src = "fileOf (before @ [title] @ body) @ final"
  let ?r0 = "\<lparr>r_source = ?src, r_description = [],
              r_nextEntry = defaultEntry P, r_hasNext = False\<rparr>"
  have b: "\<forall>l \<in> set before. CHR 0x0A \<notin> set l
             \<and> (tokenize l = [] \<or> tokenType (hd (tokenize l)) \<noteq> TitleKeyword)"
    using assms(1,2) by simp
  have "findDescription ?r0 =
      findDescription (?r0\<lparr>r_source := title @ CHR 0x0A # (fileOf body @ final)\<rparr>)"
    by (rule findDescription_before [OF b]) (simp_all add: fileOf_append)
  moreover obtain d where
    "findDescription (?r0\<lparr>r_source := title @ CHR 0x0A # (fileOf body @ final)\<rparr>) =
       ?r0\<lparr>r_source := title @ CHR 0x0A # (fileOf body @ final)\<rparr>
          \<lparr>r_source := fileOf body @ final, r_description := d\<rparr>"
    using findDescription_at_title [of title
        "?r0\<lparr>r_source := title @ CHR 0x0A # (fileOf body @ final)\<rparr>" "fileOf body @ final"]
      assms(1,3) by auto
  ultimately have fd: "findDescription ?r0 =
      \<lparr>r_source = fileOf body @ final, r_description = d, r_nextEntry = defaultEntry P,
       r_hasNext = False\<rparr>"
    by simp
  have "allEntries P (KeyboardTranslatorReader P ?src) =
      map (\<lambda>l. makeEntry P (tokenize l)) (filter isKeyLine (body @ [final]))"
    unfolding KeyboardTranslatorReader_def fd
    using assms(1) by (intro allEntries_readNext_lines) simp_all
  then show ?thesis by (simp add: allEntries_no_title)
qed

theorem entries_of_key_lines_after_title_witness:
  "list_all (\<lambda>l. CHR 0x0A \<notin> set l)
     ([''# bindings'', ''key home : erase''] @ [''keyboard \"x\"''] @
      [''key up : scrollLineUp'', [], ''# c''] @ [''key home+shift : erase''])
   \<and> list_all (\<lambda>l. tokenize l = [] \<or> tokenType (hd (tokenize l)) \<noteq> TitleKeyword)
        [''# bindings'', ''key home : erase'']
   \<and> isKeyLine ''key home : erase''
   \<and> tokenize ''keyboard \"x\"'' \<noteq> []
   \<and> tokenType (hd (tokenize ''keyboard \"x\"'')) = TitleKeyword
   \<and> filter isKeyLine ([''key up : scrollLineUp'', [], ''# c''] @ [''key home+shift : erase''])
       = [''key up : scrollLineUp'', ''key home+shift : erase'']
   \<and> allEntries samplePlatform (KeyboardTranslatorReader samplePlatform
        (fileOf ([''# bindings'', ''key home : erase''] @ [''keyboard \"x\"''] @
                 [''key up : scrollLineUp'', [], ''# c'']) @ ''key home+shift : erase'')) =
       [\<lparr>keyCode = 0x01000013, modifiers = 0, modifierMask = 0, state = 0, stateMask = 0,
         command = ScrollLineUpCommand, entryText = []\<rparr>,
        \<lparr>keyCode = 0x01000010, modifiers = 0x02000000, modifierMask = 0x02000000, state = 0,
         stateMask = 0, command = EraseCommand, entryText = []\<rparr>]
   \<and> list_all (\<lambda>l. CHR 0x0A \<notin> set l
          \<and> (tokenize l = [] \<or> tokenType (hd (tokenize l)) \<noteq> TitleKeyword))
        ([''key home : erase'', ''# c''] @ [''key up : scrollLineUp''])
   \<and> allEntries samplePlatform (KeyboardTranslatorReader samplePlatform
        (fileOf [''key home : erase'', ''# c''] @ ''key up : scrollLineUp'')) = []"
proof -
  let ?before = "[''# bindings'', ''key home : erase'']"
  let ?title = "''keyboard \"x\"''"
  let ?body = "[''key up : scrollLineUp'', [], ''# c'']"
  let ?final = "''key home+shift : erase''"
  let ?ls = "[''key home : erase'', ''# c'']"
  let ?lst = "''key up : scrollLineUp''"
  have t1: "list_all (\<lambda>l. tokenize l = [] \<or> tokenType (hd (tokenize l)) \<noteq> TitleKeyword)
      ?before"
    by code_simp
  have k: "isKeyLine ''key home : erase''" by code_simp
  have t2: "tokenize ?title \<noteq> [] \<and> tokenType (hd (tokenize ?title)) = TitleKeyword"
    by code_simp
  have h1: "\<forall>l \<in> set (?before @ [?title] @ ?body @ [?final]). CHR 0x0A \<notin> set l" by simp
  have h2: "\<forall>l \<in> set ?before. tokenize l = [] \<or> tokenType (hd (tokenize l)) \<noteq> TitleKeyword"
    using t1 unfolding list_all_iff .
  have keys: "filter isKeyLine (?body @ [?final]) = [''key up : scrollLineUp'', ?final]"
    by code_simp
  have ev: "map (\<lambda>l. makeEntry samplePlatform (tokenize l))
        [''key up : scrollLineUp'', ''key home+shift : erase''] =
       [\<lparr>keyCode = 0x01000013, modifiers = 0, modifierMask = 0, state = 0, stateMask = 0,
         command = ScrollLineUpCommand, entryText = []\<rparr>,
        \<lparr>keyCode = 0x01000010, modifiers = 0x02000000, modifierMask = 0x02000000, state = 0,
         stateMask = 0, command = EraseCommand, entryText = []\<rparr>]"
    by code_simp
  note inst = entries_of_key_lines_after_title [OF h1 h2 t2, of samplePlatform]
  have a: "list_all (\<lambda>l. CHR 0x0A \<notin> set l) (?before @ [?title] @ ?body @ [?final])" by simp
  have n1: "list_all (\<lambda>l. CHR 0x0A \<notin> set l
          \<and> (tokenize l = [] \<or> tokenType (hd (tokenize l)) \<noteq> TitleKeyword)) (?ls @ [?lst])"
    by code_simp
  have n2: "\<forall>l \<in> set (?ls @ [?lst]). CHR 0x0A \<notin> set l
          \<and> (tokenize l = [] \<or> tokenType (hd (tokenize l)) \<noteq> TitleKeyword)"
    using n1 unfolding list_all_iff .
  note none = inst [THEN conjunct2, THEN conjunct2, THEN spec, THEN spec, THEN mp, OF n2]
  show ?thesis
    by (intro conjI)
       (rule a t1 k t2 [THEN conjunct1] t2 [THEN conjunct2] keys
          inst [THEN conjunct1, unfolded keys ev] n1 none)+
qed

text \<open>
  The claim as it stands fails on an input without a title line: the constructor reads
  all of it looking for the title, and no entry is left for the caller.
\<close>

theorem key_lines_without_title_counterexample:
  "isKeyLine ''key up : scrollLineUp'' \<and> isKeyLine ''key home+shift : erase''
   \<and> allEntries samplePlatform (KeyboardTranslatorReader samplePlatform
        (fileOf [''key up : scrollLineUp'', [], ''# c'', ''key home+shift : erase''])) = []"
  by code_simp

section \<open>The reader never reports a parse error\<close>

text \<open>
  Claim C10. \<open>parseError()\<close> is false for every reader in every state, whatever the
  input held: the state of the reader (the input left, the description, the buffered
  entry, the flag) is arbitrary here.
\<close>

theorem parseError_never: "\<not> parseError r"
  by (simp add: parseError_def)

end
